theory Spec2Isabelle
  imports Main "HOL-Library.Sublist" "HOL-Library.Word"
begin

section \<open>JavaScript strings\<close>

text \<open>
  A JavaScript string is a sequence of UTF-16 code units and \<^verbatim>\<open>length\<close> counts code
  units. A code unit is modelled by its number; every theorem below holds for all lists of
  numbers, hence for all strings. \<open>js\<close> reads an ASCII literal as such a string.
\<close>

type_synonym jchar = nat
type_synonym jstring = "jchar list"

definition js :: "string \<Rightarrow> jstring" where
  "js s = map of_char s"

text \<open>
  The white space of \<^verbatim>\<open>String.prototype.trim\<close> and of the regular expression class
  \<^verbatim>\<open>\s\<close> (the same set: WhiteSpace and LineTerminator of ECMAScript): TAB, LF, VT, FF, CR,
  SP, NBSP, U+1680, U+2000..U+200A, U+2028, U+2029, U+202F, U+205F, U+3000, U+FEFF.
\<close>

definition isWhiteSpace :: "jchar \<Rightarrow> bool" where
  "isWhiteSpace c \<longleftrightarrow>
     c = 9 \<or> c = 10 \<or> c = 11 \<or> c = 12 \<or> c = 13 \<or> c = 32 \<or> c = 160 \<or> c = 5760 \<or>
     (8192 \<le> c \<and> c \<le> 8202) \<or> c = 8232 \<or> c = 8233 \<or> c = 8239 \<or> c = 8287 \<or>
     c = 12288 \<or> c = 65279"

definition trim :: "jstring \<Rightarrow> jstring" where
  "trim s = rev (dropWhile isWhiteSpace (rev (dropWhile isWhiteSpace s)))"

text \<open>
  The number of code units of a string that are no white space: the measure by which the
  chunks of a text are counted below.
\<close>

definition visible :: "jstring \<Rightarrow> nat" where
  "visible s = length (filter (\<lambda>c. \<not> isWhiteSpace c) s)"

text \<open>\<^verbatim>\<open>s.slice(i, j)\<close> for \<open>0 \<le> i\<close>: both ends are clamped to the length of \<open>s\<close>.\<close>

definition slice :: "jstring \<Rightarrow> nat \<Rightarrow> nat \<Rightarrow> jstring" where
  "slice s i j = take (j - i) (drop i s)"

subsection \<open>\<^verbatim>\<open>String.prototype.split\<close> with a regular expression\<close>

text \<open>
  A matcher stands for a regular expression tried at one position of the string (a sticky
  match, as \<^verbatim>\<open>split\<close> does): it is given the code units before the position, nearest
  first (what a lookbehind sees), and the code units from the position on, and answers the
  length of the match there, if any.
\<close>

type_synonym matcher = "jstring \<Rightarrow> jstring \<Rightarrow> nat option"

text \<open>
  The loop of \<^verbatim>\<open>RegExp.prototype[Symbol.split]\<close>: \<open>piece\<close> is the substring from \<open>p\<close>
  to \<open>q\<close>, \<open>rest\<close> the string from \<open>q\<close> on. No match at \<open>q\<close>, or an empty match
  at \<open>q = p\<close> (the test \<open>e = p\<close>), advances \<open>q\<close> by one; any other match emits the piece
  and continues behind the match. At the end of the string the last piece is emitted.
\<close>

function jsSplitLoop :: "matcher \<Rightarrow> jstring \<Rightarrow> jstring \<Rightarrow> jstring \<Rightarrow> jstring list" where
  "jsSplitLoop m prev piece [] = [piece]"
| "jsSplitLoop m prev piece (c # cs) =
     (case m prev (c # cs) of
        None \<Rightarrow> jsSplitLoop m (c # prev) (piece @ [c]) cs
      | Some n \<Rightarrow>
          if min n (length (c # cs)) = 0 \<and> piece = []
          then jsSplitLoop m (c # prev) (piece @ [c]) cs
          else piece # jsSplitLoop m (rev (take n (c # cs)) @ prev) [] (drop n (c # cs)))"
  by pat_completeness auto
termination
  by (relation "measures [\<lambda>(m, prev, piece, rest). length rest,
                          \<lambda>(m, prev, piece, rest). if piece = [] then 0 else 1]")
     (auto split: if_splits)

text \<open>On the empty string \<^verbatim>\<open>split\<close> answers \<open>[]\<close> if the expression matches it, else \<open>[S]\<close>.\<close>

definition jsSplit :: "matcher \<Rightarrow> jstring \<Rightarrow> jstring list" where
  "jsSplit m S =
     (if S = [] then (case m [] [] of None \<Rightarrow> [[]] | Some n \<Rightarrow> [])
      else jsSplitLoop m [] [] S)"

text \<open>
  \<^verbatim>\<open>/\n\s*\n/\<close>: a line feed, then white space taken greedily and given back until a line
  feed follows. The white space run behind the first line feed must hold a line feed, and
  the match ends behind the last one of the run.
\<close>

definition paragraphBreak :: matcher where
  "paragraphBreak prev rest =
     (case rest of
        [] \<Rightarrow> None
      | c # cs \<Rightarrow>
          if c = 10 then
            (let r = dropWhile (\<lambda>x. x \<noteq> 10) (rev (takeWhile isWhiteSpace cs))
             in if r = [] then None else Some (1 + length r))
          else None)"

text \<open>
  \<^verbatim>\<open>/(?<=[.!?])\s+(?=[A-Z])|(?<=[.!?]["'])\s+(?=[A-Z])/g\<close>: behind \<open>.\<close>, \<open>!\<close> or \<open>?\<close>
  (or behind one of them followed by a quote), one or more white space characters, and
  then a capital letter. The letter is no white space, so the whole run is matched.
\<close>

definition isTerminator :: "jchar \<Rightarrow> bool" where
  "isTerminator c \<longleftrightarrow> c = 46 \<or> c = 33 \<or> c = 63"

definition isQuote :: "jchar \<Rightarrow> bool" where
  "isQuote c \<longleftrightarrow> c = 34 \<or> c = 39"

definition isCapital :: "jchar \<Rightarrow> bool" where
  "isCapital c \<longleftrightarrow> 65 \<le> c \<and> c \<le> 90"

definition lookbehind :: "jstring \<Rightarrow> bool" where
  "lookbehind prev =
     (case prev of
        [] \<Rightarrow> False
      | c # bs \<Rightarrow> isTerminator c \<or>
          (isQuote c \<and> (case bs of [] \<Rightarrow> False | d # ds \<Rightarrow> isTerminator d)))"

definition sentenceRegex :: matcher where
  "sentenceRegex prev rest =
     (let run = takeWhile isWhiteSpace rest; after = dropWhile isWhiteSpace rest
      in if lookbehind prev \<and> run \<noteq> [] \<and> (case after of [] \<Rightarrow> False | a # as \<Rightarrow> isCapital a)
         then Some (length run) else None)"

text \<open>\<^verbatim>\<open>/\s+/\<close>: a maximal run of white space.\<close>

definition whiteSpaceRun :: matcher where
  "whiteSpaceRun prev rest =
     (let run = takeWhile isWhiteSpace rest
      in if run \<noteq> [] then Some (length run) else None)"

section \<open>The text chunker\<close>

text \<open>
  The constructor stores \<open>maxChunkSize\<close> and \<open>safeChunkSize = Math.floor(maxChunkSize * 0.95)\<close>.
  The double nearest to 0.95 is smaller than 0.95 by \<open>0.4 * 2^-53\<close>. For a natural number
  below \<open>2^50\<close> the product is short of the exact one by less than 0.05, so the floor of the
  double product is the floor of the exact product, \<open>maxChunkSize * 19 div 20\<close>, which is
  what the model takes. (From about \<open>1.18 * 10^15\<close> on the double floor can be one more;
  no text is that long.)
\<close>

record TextChunker =
  maxChunkSize :: nat
  safeChunkSize :: nat

definition newTextChunker :: "nat \<Rightarrow> TextChunker" where
  "newTextChunker n = \<lparr> maxChunkSize = n, safeChunkSize = (n * 19) div 20 \<rparr>"

definition splitIntoParagraphs :: "jstring \<Rightarrow> jstring list" where
  "splitIntoParagraphs text =
     filter (\<lambda>p. length p > 0) (map trim (jsSplit paragraphBreak text))"

definition splitIntoSentences :: "jstring \<Rightarrow> jstring list" where
  "splitIntoSentences text =
     filter (\<lambda>s. length s > 0) (map trim (jsSplit sentenceRegex text))"

text \<open>
  \<^verbatim>\<open>if (currentChunk.trim().length > 0) chunks.push(currentChunk.trim())\<close>, the statement
  each loop uses to save the current chunk.
\<close>

definition pushTrimmed :: "jstring list \<Rightarrow> jstring \<Rightarrow> jstring list" where
  "pushTrimmed chunks currentChunk =
     (if length (trim currentChunk) > 0 then chunks @ [trim currentChunk] else chunks)"

text \<open>
  The character loop \<^verbatim>\<open>for (let i = 0; i < word.length; i += this.safeChunkSize)\<close>.
  With \<open>safeChunkSize = 0\<close> the index never moves and the loop does not end: the value
  \<open>None\<close> stands for not returning.
\<close>

partial_function (option) charLoop ::
  "nat \<Rightarrow> jstring \<Rightarrow> nat \<Rightarrow> jstring list \<Rightarrow> jstring list option" where
  "charLoop safe word i chunks =
     (if i < length word
      then charLoop safe word (i + safe) (chunks @ [slice word i (i + safe)])
      else Some chunks)"

declare charLoop.simps [code]

text \<open>The loop of \<open>chunkByWords\<close> over the words, on the state \<open>(chunks, currentChunk)\<close>.\<close>

fun wordLoop ::
  "nat \<Rightarrow> jstring list \<Rightarrow> jstring list \<Rightarrow> jstring \<Rightarrow> (jstring list \<times> jstring) option" where
  "wordLoop safe [] chunks currentChunk = Some (chunks, currentChunk)"
| "wordLoop safe (word # words) chunks currentChunk =
     (if length word > safe then
        (case charLoop safe word 0 (pushTrimmed chunks currentChunk) of
           None \<Rightarrow> None
         | Some chunks' \<Rightarrow>
             wordLoop safe words chunks'
               (if length (trim currentChunk) > 0 then [] else currentChunk))
      else if length currentChunk + length word + 1 > safe then
        wordLoop safe words (pushTrimmed chunks currentChunk) word
      else
        wordLoop safe words chunks
          (currentChunk @ (if length currentChunk > 0 then js '' '' else []) @ word))"

definition chunkByWords :: "TextChunker \<Rightarrow> jstring \<Rightarrow> jstring list option" where
  "chunkByWords this text =
     (case wordLoop (safeChunkSize this) (jsSplit whiteSpaceRun text) [] [] of
        None \<Rightarrow> None
      | Some (chunks, currentChunk) \<Rightarrow> Some (pushTrimmed chunks currentChunk))"

text \<open>
  \<^verbatim>\<open>chunks.push(...items)\<close> passes every element of \<open>items\<close> as an argument of one call.
  A JavaScript engine accepts only so many arguments (the number depends on the stack that
  is left at the call) and throws a \<^verbatim>\<open>RangeError\<close> beyond. The two numbers, one for
  each of the two calls of this kind, are parameters of the model.
\<close>

datatype jsError = RangeError

record engine =
  sentenceChunksLimit :: nat
  wordChunksLimit :: nat

definition pushSpread :: "nat \<Rightarrow> jstring list \<Rightarrow> jstring list \<Rightarrow> jsError + jstring list" where
  "pushSpread limit chunks items =
     (if length items > limit then Inl RangeError else Inr (chunks @ items))"

text \<open>
  The loops of \<open>chunkBySentences\<close> and of \<open>chunk\<close>. A call has three outcomes: it does
  not return (\<open>None\<close>), it throws (\<open>Some (Inl e)\<close>) or it returns (\<open>Some (Inr r)\<close>).
\<close>

fun sentenceLoop ::
  "engine \<Rightarrow> TextChunker \<Rightarrow> jstring list \<Rightarrow> jstring list \<Rightarrow> jstring \<Rightarrow>
   (jsError + jstring list \<times> jstring) option" where
  "sentenceLoop eng this [] chunks currentChunk = Some (Inr (chunks, currentChunk))"
| "sentenceLoop eng this (sentence # sentences) chunks currentChunk =
     (if length sentence > safeChunkSize this then
        (case chunkByWords this sentence of
           None \<Rightarrow> None
         | Some wordChunks \<Rightarrow>
             (case pushSpread (wordChunksLimit eng) (pushTrimmed chunks currentChunk) wordChunks of
                Inl e \<Rightarrow> Some (Inl e)
              | Inr chunks' \<Rightarrow>
                  sentenceLoop eng this sentences chunks'
                    (if length (trim currentChunk) > 0 then [] else currentChunk)))
      else if length currentChunk + length sentence + 1 > safeChunkSize this then
        sentenceLoop eng this sentences (pushTrimmed chunks currentChunk) sentence
      else
        sentenceLoop eng this sentences chunks
          (currentChunk @ (if length currentChunk > 0 then js '' '' else []) @ sentence))"

definition chunkBySentences :: "engine \<Rightarrow> TextChunker \<Rightarrow> jstring \<Rightarrow> (jsError + jstring list) option" where
  "chunkBySentences eng this text =
     (case sentenceLoop eng this (splitIntoSentences text) [] [] of
        None \<Rightarrow> None
      | Some (Inl e) \<Rightarrow> Some (Inl e)
      | Some (Inr (chunks, currentChunk)) \<Rightarrow> Some (Inr (pushTrimmed chunks currentChunk)))"

fun paragraphLoop ::
  "engine \<Rightarrow> TextChunker \<Rightarrow> jstring list \<Rightarrow> jstring list \<Rightarrow> jstring \<Rightarrow>
   (jsError + jstring list \<times> jstring) option" where
  "paragraphLoop eng this [] chunks currentChunk = Some (Inr (chunks, currentChunk))"
| "paragraphLoop eng this (paragraph # paragraphs) chunks currentChunk =
     (if length paragraph > safeChunkSize this then
        (case chunkBySentences eng this paragraph of
           None \<Rightarrow> None
         | Some (Inl e) \<Rightarrow> Some (Inl e)
         | Some (Inr sentenceChunks) \<Rightarrow>
             (case pushSpread (sentenceChunksLimit eng) (pushTrimmed chunks currentChunk)
                     sentenceChunks of
                Inl e \<Rightarrow> Some (Inl e)
              | Inr chunks' \<Rightarrow>
                  paragraphLoop eng this paragraphs chunks'
                    (if length (trim currentChunk) > 0 then [] else currentChunk)))
      else if length currentChunk + length paragraph + 1 > safeChunkSize this then
        paragraphLoop eng this paragraphs (pushTrimmed chunks currentChunk) paragraph
      else
        paragraphLoop eng this paragraphs chunks
          (currentChunk @ (if length currentChunk > 0 then [10, 10] else []) @ paragraph))"

definition chunk :: "engine \<Rightarrow> TextChunker \<Rightarrow> jstring \<Rightarrow> (jsError + jstring list) option" where
  "chunk eng this text =
     (if length (trim text) = 0 then Some (Inr [])
      else if length text \<le> safeChunkSize this then Some (Inr [trim text])
      else
        (case paragraphLoop eng this (splitIntoParagraphs text) [] [] of
           None \<Rightarrow> None
         | Some (Inl e) \<Rightarrow> Some (Inl e)
         | Some (Inr (chunks, currentChunk)) \<Rightarrow>
             Some (Inr (filter (\<lambda>c. length c > 0) (pushTrimmed chunks currentChunk)))))"

definition validateChunks :: "TextChunker \<Rightarrow> jstring list \<Rightarrow> bool" where
  "validateChunks this chunks = list_all (\<lambda>c. length c \<le> maxChunkSize this) chunks"

definition chunkText :: "engine \<Rightarrow> jstring \<Rightarrow> nat \<Rightarrow> (jsError + jstring list) option" where
  "chunkText eng text n = chunk eng (newTextChunker n) text"

text \<open>
  Paragraphs joined by two line feeds, \<^verbatim>\<open>paragraphs.join('\n\n')\<close>: what the spec says a
  chunk accumulated from paragraphs is. It stands in statements only; the code builds the
  chunk step by step in the paragraph loop.
\<close>

fun joinParagraphs :: "jstring list \<Rightarrow> jstring" where
  "joinParagraphs [] = []"
| "joinParagraphs [p] = p"
| "joinParagraphs (p # q # ps) = p @ [10, 10] @ joinParagraphs (q # ps)"

section \<open>The audio processor\<close>

text \<open>
  An audio buffer is an opaque sequence of bytes. The processor works on the file system
  and runs external commands; both are made explicit. A path names a file. The names the
  processor gives its transient files are \<^verbatim>\<open>chunk_<i>_<Date.now()>.mp3\<close> and
  \<^verbatim>\<open>concat_list_<Date.now()>.txt\<close> in its temporary directory; \<open>UserFile\<close> stands for
  every other file. The output path is the caller's and may be any path, the name of a
  transient file included.
\<close>

type_synonym buffer = "8 word list"

datatype path = TempChunk nat nat | ConcatList nat | UserFile string

datatype content = Audio buffer | Manifest "path list"

datatype command =
    FFmpegVersion
  | ConcatDemuxer path path
  | FilterComplex "path list" path

datatype message = FFmpegNotFound | DeleteFailed path

text \<open>
  The errors thrown, by their messages: \<^verbatim>\<open>No audio buffers provided\<close>,
  \<^verbatim>\<open>No input files provided\<close>, \<^verbatim>\<open>FFmpeg concatenation failed: ...\<close>, a rejected file
  operation, a failed command, and the wrapper \<^verbatim>\<open>Failed to concatenate audio: ...\<close> that
  \<open>concatenateBuffers\<close> puts around whatever its \<^verbatim>\<open>try\<close> block throws.
\<close>

datatype error =
    NoAudioBuffers
  | NoInputFiles
  | FFmpegConcatFailed
  | IOError path
  | ExecError command
  | FailedToConcatenate error

text \<open>
  What the code cannot decide itself: whether \<^verbatim>\<open>ffmpeg\<close> is installed, whether each of
  its two invocations succeeds and what it writes then, the successive values of
  \<^verbatim>\<open>Date.now()\<close>, and which files can be written and removed.
\<close>

record environment =
  ffmpegInstalled :: bool
  demuxerWorks :: bool
  filterWorks :: bool
  remux :: "buffer list \<Rightarrow> buffer"
  clock :: "nat \<Rightarrow> nat"
  writable :: "path \<Rightarrow> bool"
  removable :: "path \<Rightarrow> bool"

record world =
  files :: "path \<rightharpoonup> content"
  execLog :: "command list"
  console :: "message list"
  ticks :: nat

definition dateNow :: "environment \<Rightarrow> world \<Rightarrow> nat \<times> world" where
  "dateNow env w = (clock env (ticks w), w\<lparr>ticks := ticks w + 1\<rparr>)"

definition writeFile :: "environment \<Rightarrow> path \<Rightarrow> content \<Rightarrow> world \<Rightarrow> (error + unit) \<times> world" where
  "writeFile env p c w =
     (if writable env p then (Inr (), w\<lparr>files := (files w)(p \<mapsto> c)\<rparr>)
      else (Inl (IOError p), w))"

definition readFile :: "path \<Rightarrow> world \<Rightarrow> error + buffer" where
  "readFile p w =
     (case files w p of
        Some (Audio b) \<Rightarrow> Inr b
      | _ \<Rightarrow> Inl (IOError p))"

definition unlink :: "environment \<Rightarrow> path \<Rightarrow> world \<Rightarrow> (error + unit) \<times> world" where
  "unlink env p w =
     (if files w p \<noteq> None \<and> removable env p
      then (Inr (), w\<lparr>files := (files w)(p := None)\<rparr>)
      else (Inl (IOError p), w))"

text \<open>The audio held by the files of a list, for the command that reads them.\<close>

definition audioOf :: "world \<Rightarrow> path list \<Rightarrow> buffer list" where
  "audioOf w ps =
     List.map_filter (\<lambda>p. case files w p of Some (Audio b) \<Rightarrow> Some b | _ \<Rightarrow> None) ps"

text \<open>
  \<^verbatim>\<open>execAsync(command)\<close>: the command is recorded; it succeeds as the environment says,
  and a successful concatenation writes the output file.
\<close>

definition execAsync :: "environment \<Rightarrow> command \<Rightarrow> world \<Rightarrow> (error + unit) \<times> world" where
  "execAsync env cmd w =
     (let w1 = w\<lparr>execLog := execLog w @ [cmd]\<rparr> in
      case cmd of
        FFmpegVersion \<Rightarrow>
          if ffmpegInstalled env then (Inr (), w1) else (Inl (ExecError cmd), w1)
      | ConcatDemuxer listFile out \<Rightarrow>
          if demuxerWorks env then
            (Inr (), w1\<lparr>files := (files w1)(out \<mapsto>
               Audio (remux env (audioOf w1
                 (case files w1 listFile of Some (Manifest ps) \<Rightarrow> ps | _ \<Rightarrow> []))))\<rparr>)
          else (Inl (ExecError cmd), w1)
      | FilterComplex inputs out \<Rightarrow>
          if filterWorks env then
            (Inr (), w1\<lparr>files := (files w1)(out \<mapsto> Audio (remux env (audioOf w1 inputs)))\<rparr>)
          else (Inl (ExecError cmd), w1))"

definition checkFFmpeg :: "environment \<Rightarrow> world \<Rightarrow> bool \<times> world" where
  "checkFFmpeg env w =
     (case execAsync env FFmpegVersion w of
        (Inr u, w') \<Rightarrow> (True, w')
      | (Inl e, w') \<Rightarrow> (False, w'))"

fun cleanupTempFiles :: "environment \<Rightarrow> path list \<Rightarrow> world \<Rightarrow> world" where
  "cleanupTempFiles env [] w = w"
| "cleanupTempFiles env (file # rest) w =
     (case unlink env file w of
        (Inr u, w') \<Rightarrow> cleanupTempFiles env rest w'
      | (Inl e, w') \<Rightarrow>
          cleanupTempFiles env rest (w'\<lparr>console := console w' @ [DeleteFailed file]\<rparr>))"

fun readBuffers :: "path list \<Rightarrow> buffer list \<Rightarrow> world \<Rightarrow> error + buffer list" where
  "readBuffers [] buffers w = Inr buffers"
| "readBuffers (file # rest) buffers w =
     (case readFile file w of
        Inl e \<Rightarrow> Inl e
      | Inr b \<Rightarrow> readBuffers rest (buffers @ [b]) w)"

definition simpleConcatenate ::
  "environment \<Rightarrow> path list \<Rightarrow> path \<Rightarrow> world \<Rightarrow> (error + unit) \<times> world" where
  "simpleConcatenate env inputFiles outputPath w =
     (case readBuffers inputFiles [] w of
        Inl e \<Rightarrow> (Inl e, w)
      | Inr buffers \<Rightarrow> writeFile env outputPath (Audio (concat buffers)) w)"

text \<open>
  The list file is written before the \<^verbatim>\<open>try\<close>; the \<^verbatim>\<open>catch\<close> runs the second
  invocation and turns its failure into \<open>FFmpegConcatFailed\<close>; the \<^verbatim>\<open>finally\<close> removes
  the list file on both ways out and ignores a failure to do so.
\<close>

definition concatenateWithFFmpeg ::
  "environment \<Rightarrow> path list \<Rightarrow> path \<Rightarrow> world \<Rightarrow> (error + unit) \<times> world" where
  "concatenateWithFFmpeg env inputFiles outputPath w =
     (let (t, w1) = dateNow env w; listFile = ConcatList t in
      (case writeFile env listFile (Manifest inputFiles) w1 of
         (Inl e, w2) \<Rightarrow> (Inl e, w2)
       | (Inr u, w2) \<Rightarrow>
           (let (r, w5) =
              (case execAsync env (ConcatDemuxer listFile outputPath) w2 of
                 (Inr u, w3) \<Rightarrow> (Inr (), w3)
               | (Inl e, w3) \<Rightarrow>
                   (case execAsync env (FilterComplex inputFiles outputPath) w3 of
                      (Inr u, w4) \<Rightarrow> (Inr (), w4)
                    | (Inl retryError, w4) \<Rightarrow> (Inl FFmpegConcatFailed, w4)))
            in (r, snd (unlink env listFile w5)))))"

definition concatenateFiles ::
  "environment \<Rightarrow> path list \<Rightarrow> path \<Rightarrow> world \<Rightarrow> (error + unit) \<times> world" where
  "concatenateFiles env inputFiles outputPath w =
     (if length inputFiles = 0 then (Inl NoInputFiles, w)
      else
        (let (hasFFmpeg, w1) = checkFFmpeg env w in
         if hasFFmpeg then concatenateWithFFmpeg env inputFiles outputPath w1
         else simpleConcatenate env inputFiles outputPath
                (w1\<lparr>console := console w1 @ [FFmpegNotFound]\<rparr>)))"

text \<open>
  The loop \<^verbatim>\<open>for (let i = 0; i < audioBuffers.length; i++)\<close> that saves each buffer as a
  temporary file; the first argument is \<open>i\<close>, the second the buffers from \<open>i\<close> on.
\<close>

fun saveBuffers ::
  "environment \<Rightarrow> nat \<Rightarrow> buffer list \<Rightarrow> path list \<Rightarrow> world \<Rightarrow> (error + path list) \<times> world" where
  "saveBuffers env i [] tempFiles w = (Inr tempFiles, w)"
| "saveBuffers env i (b # bs) tempFiles w =
     (let (t, w1) = dateNow env w; tempFile = TempChunk i t in
      (case writeFile env tempFile (Audio b) w1 of
         (Inl e, w2) \<Rightarrow> (Inl e, w2)
       | (Inr u, w2) \<Rightarrow> saveBuffers env (i + 1) bs (tempFiles @ [tempFile]) w2))"

text \<open>
  \<open>concatenateBuffers\<close>: no buffer throws; one buffer is written to the output as it is;
  otherwise the \<^verbatim>\<open>try\<close> block saves the buffers, concatenates the files and cleans up,
  and the \<^verbatim>\<open>catch\<close> wraps and rethrows. There is no \<^verbatim>\<open>finally\<close>.
  (\<open>ensureTempDir\<close> swallows its own errors and changes nothing modelled here.)
\<close>

definition concatenateBuffers ::
  "environment \<Rightarrow> buffer list \<Rightarrow> path \<Rightarrow> world \<Rightarrow> (error + path) \<times> world" where
  "concatenateBuffers env audioBuffers outputPath w =
     (case audioBuffers of
        [] \<Rightarrow> (Inl NoAudioBuffers, w)
      | [b] \<Rightarrow>
          (case writeFile env outputPath (Audio b) w of
             (Inl e, w') \<Rightarrow> (Inl e, w')
           | (Inr u, w') \<Rightarrow> (Inr outputPath, w'))
      | _ \<Rightarrow>
          (case saveBuffers env 0 audioBuffers [] w of
             (Inl e, w1) \<Rightarrow> (Inl (FailedToConcatenate e), w1)
           | (Inr tempFiles, w1) \<Rightarrow>
               (case concatenateFiles env tempFiles outputPath w1 of
                  (Inl e, w2) \<Rightarrow> (Inl (FailedToConcatenate e), w2)
                | (Inr u, w2) \<Rightarrow> (Inr outputPath, cleanupTempFiles env tempFiles w2))))"

section \<open>Concrete inputs\<close>

subsection \<open>Environments\<close>

text \<open>
  \<open>failingTool\<close>: \<^verbatim>\<open>ffmpeg\<close> is installed and both of its invocations fail.
  \<open>missingTool\<close>: \<^verbatim>\<open>ffmpeg\<close> is not installed. In both every file can be written and
  removed, and \<open>emptyWorld\<close> has no file.
\<close>

definition failingTool :: environment where
  "failingTool = \<lparr> ffmpegInstalled = True, demuxerWorks = False, filterWorks = False,
                    remux = concat, clock = (\<lambda>k. 1000 + k),
                    writable = (\<lambda>p. True), removable = (\<lambda>p. True) \<rparr>"

definition missingTool :: environment where
  "missingTool = \<lparr> ffmpegInstalled = False, demuxerWorks = False, filterWorks = False,
                    remux = concat, clock = (\<lambda>k. 1000 + k),
                    writable = (\<lambda>p. True), removable = (\<lambda>p. True) \<rparr>"

definition emptyWorld :: world where
  "emptyWorld = \<lparr> files = Map.empty, execLog = [], console = [], ticks = 0 \<rparr>"

subsection \<open>An engine\<close>

text \<open>An engine that accepts up to 120000 arguments at both spread calls.\<close>

definition anEngine :: engine where
  "anEngine = \<lparr> sentenceChunksLimit = 120000, wordChunksLimit = 120000 \<rparr>"

subsection \<open>Concrete texts\<close>

text \<open>
  Three paragraphs of 9, 9 and 5 characters, and a text of two one-letter paragraphs
  separated by \<^verbatim>\<open>\n \n\<close> and followed by twenty spaces.
\<close>

definition threeParagraphs :: jstring where
  "threeParagraphs = js ''aaaaaaaaa'' @ [10, 10] @ js ''bbbbbbbbb'' @ [10, 10] @ js ''ccccc''"

definition paddedText :: jstring where
  "paddedText = js ''a'' @ [10, 32, 10] @ js ''b                    ''"

text \<open>
  \<^verbatim>\<open>Fin. \<close> followed by a word that begins with U+00C9, LATIN CAPITAL LETTER E WITH
  ACUTE.
\<close>

definition accentedCapital :: jstring where
  "accentedCapital = js ''Fin. '' @ [201] @ js ''cole.''"

section \<open>Properties of the text chunker\<close>

subsection \<open>Sizes\<close>

lemma length_trim_le: "length (trim s) \<le> length s"
proof -
  have "length (trim s) \<le> length (dropWhile isWhiteSpace s)"
    unfolding trim_def by (metis length_dropWhile_le length_rev)
  also have "\<dots> \<le> length s" by (rule length_dropWhile_le)
  finally show ?thesis .
qed

lemma safe_less_max: "0 < n \<Longrightarrow> safeChunkSize (newTextChunker n) + 1 \<le> n"
  by (simp add: newTextChunker_def)

lemma safe_pos: "2 \<le> n \<Longrightarrow> 0 < safeChunkSize (newTextChunker n)"
  by (simp add: newTextChunker_def)

lemma pushTrimmed_bound:
  "\<forall>c\<in>set chunks. length c \<le> B \<Longrightarrow> length cur \<le> B \<Longrightarrow>
   \<forall>c\<in>set (pushTrimmed chunks cur). length c \<le> B"
  using length_trim_le [of cur] by (auto simp: pushTrimmed_def)

text \<open>What the character loop returns, when it returns, and that it does for a positive step.\<close>

lemma charLoop_bound:
  assumes "charLoop safe word i chunks = Some r" and "\<forall>c\<in>set chunks. length c \<le> safe"
  shows "\<forall>c\<in>set r. length c \<le> safe"
proof -
  have "(\<forall>c\<in>set chunks. length c \<le> safe) \<longrightarrow> (\<forall>c\<in>set r. length c \<le> safe)"
  proof (rule charLoop.raw_induct
      [where P = "\<lambda>safe word i chunks r.
         (\<forall>c\<in>set chunks. length c \<le> safe) \<longrightarrow> (\<forall>c\<in>set r. length c \<le> safe)",
       OF _ assms(1)])
    fix loop :: "nat \<Rightarrow> jstring \<Rightarrow> nat \<Rightarrow> jstring list \<Rightarrow> jstring list option"
    fix safe word i chunks r
    assume IH: "\<And>safe word i chunks r. loop safe word i chunks = Some r \<Longrightarrow>
        (\<forall>c\<in>set chunks. length c \<le> safe) \<longrightarrow> (\<forall>c\<in>set r. length c \<le> safe)"
      and body: "(if i < length word
            then loop safe word (i + safe) (chunks @ [slice word i (i + safe)])
            else Some chunks) = Some r"
    show "(\<forall>c\<in>set chunks. length c \<le> safe) \<longrightarrow> (\<forall>c\<in>set r. length c \<le> safe)"
    proof (cases "i < length word")
      case True
      with body have "loop safe word (i + safe) (chunks @ [slice word i (i + safe)]) = Some r"
        by simp
      from IH [OF this] show ?thesis by (simp add: slice_def)
    next
      case False
      with body show ?thesis by auto
    qed
  qed
  with assms(2) show ?thesis by blast
qed

lemma charLoop_zero_step:
  assumes "charLoop 0 word i chunks = Some r"
  shows "length word \<le> i"
proof -
  have "0 = (0::nat) \<longrightarrow> length word \<le> i"
  proof (rule charLoop.raw_induct
      [where P = "\<lambda>safe word i chunks r. safe = 0 \<longrightarrow> length word \<le> i", OF _ assms])
    fix loop :: "nat \<Rightarrow> jstring \<Rightarrow> nat \<Rightarrow> jstring list \<Rightarrow> jstring list option"
    fix safe word i chunks r
    assume IH: "\<And>safe word i chunks r. loop safe word i chunks = Some r \<Longrightarrow>
        safe = 0 \<longrightarrow> length word \<le> i"
      and body: "(if i < length word
            then loop safe word (i + safe) (chunks @ [slice word i (i + safe)])
            else Some chunks) = Some r"
    show "safe = 0 \<longrightarrow> length word \<le> i"
    proof (cases "i < length word")
      case True
      with body have "loop safe word (i + safe) (chunks @ [slice word i (i + safe)]) = Some r"
        by simp
      from IH [OF this] show ?thesis by simp
    next
      case False
      then show ?thesis by simp
    qed
  qed
  then show ?thesis by simp
qed

lemma charLoop_total:
  assumes "0 < safe"
  shows "\<exists>cs. charLoop safe word i chunks = Some (chunks @ cs)
           \<and> concat cs = drop i word
           \<and> (\<forall>c\<in>set cs. c \<noteq> [] \<and> length c \<le> safe)
           \<and> (\<forall>c\<in>set (butlast cs). length c = safe)"
proof (induction "length word - i" arbitrary: i chunks rule: less_induct)
  case less
  show ?case
  proof (cases "i < length word")
    case False
    then show ?thesis by (subst charLoop.simps) simp
  next
    case True
    define s where "s = slice word i (i + safe)"
    have s: "s = take safe (drop i word)" by (simp add: s_def slice_def)
    have "length word - (i + safe) < length word - i" using True assms by arith
    from less [OF this, of "chunks @ [s]"]
    obtain cs where cs: "charLoop safe word (i + safe) (chunks @ [s]) = Some ((chunks @ [s]) @ cs)"
      "concat cs = drop (i + safe) word"
      "\<forall>c\<in>set cs. c \<noteq> [] \<and> length c \<le> safe"
      "\<forall>c\<in>set (butlast cs). length c = safe"
      by blast
    have run: "charLoop safe word i chunks = Some (chunks @ (s # cs))"
      using True cs(1) by (subst charLoop.simps) (simp add: s_def)
    have "take safe (drop i word) @ drop (i + safe) word = drop i word"
      by (metis append_take_drop_id drop_drop add.commute)
    with cs(2) have cat: "concat (s # cs) = drop i word" by (simp add: s)
    have ne: "s \<noteq> []" using True assms by (simp add: s)
    have le: "length s \<le> safe" by (simp add: s)
    have full: "cs \<noteq> [] \<Longrightarrow> length s = safe"
    proof -
      assume "cs \<noteq> []"
      then obtain c cs' where "cs = c # cs'" by (cases cs) auto
      with cs(3) have "concat cs \<noteq> []" by auto
      with cs(2) have "i + safe < length word" by simp
      then show ?thesis by (simp add: s)
    qed
    have bl: "\<forall>c\<in>set (butlast (s # cs)). length c = safe"
      using cs(4) full by auto
    from run cat ne le cs(3) bl show ?thesis by (intro exI [of _ "s # cs"]) auto
  qed
qed


lemma wordLoop_bound:
  "wordLoop safe words chunks cur = Some (chunks', cur') \<Longrightarrow>
   \<forall>c\<in>set chunks. length c \<le> safe \<Longrightarrow> length cur \<le> safe \<Longrightarrow>
   (\<forall>c\<in>set chunks'. length c \<le> safe) \<and> length cur' \<le> safe"
proof (induction words arbitrary: chunks cur)
  case Nil
  then show ?case by simp
next
  case (Cons word words)
  have pushed: "\<forall>c\<in>set (pushTrimmed chunks cur). length c \<le> safe"
    using Cons.prems(2,3) by (rule pushTrimmed_bound)
  consider (long) "length word > safe"
    | (flush) "\<not> length word > safe" "length cur + length word + 1 > safe"
    | (add) "\<not> length word > safe" "\<not> length cur + length word + 1 > safe"
    by blast
  then show ?case
  proof cases
    case long
    with Cons.prems(1) obtain cs where cs: "charLoop safe word 0 (pushTrimmed chunks cur) = Some cs"
      and rest: "wordLoop safe words cs (if length (trim cur) > 0 then [] else cur) = Some (chunks', cur')"
      by (auto split: option.splits)
    from charLoop_bound [OF cs pushed] have "\<forall>c\<in>set cs. length c \<le> safe" .
    moreover have "length (if length (trim cur) > 0 then [] else cur) \<le> safe"
      using Cons.prems(3) by simp
    ultimately show ?thesis using Cons.IH [OF rest] by blast
  next
    case flush
    with Cons.prems(1) have rest: "wordLoop safe words (pushTrimmed chunks cur) word = Some (chunks', cur')"
      by simp
    from flush(1) have "length word \<le> safe" by simp
    with Cons.IH [OF rest pushed] show ?thesis by blast
  next
    case add
    let ?cur = "cur @ (if length cur > 0 then js '' '' else []) @ word"
    from add Cons.prems(1) have rest: "wordLoop safe words chunks ?cur = Some (chunks', cur')"
      by simp
    have "length ?cur \<le> safe" using add(2) by (simp add: js_def)
    with Cons.IH [OF rest Cons.prems(2)] show ?thesis by blast
  qed
qed

lemma wordLoop_total:
  assumes "0 < safe"
  shows "\<exists>r. wordLoop safe words chunks cur = Some r"
proof (induction words arbitrary: chunks cur)
  case Nil
  show ?case by simp
next
  case (Cons word words)
  from charLoop_total [OF assms, of word 0 "pushTrimmed chunks cur"]
  obtain cs where "charLoop safe word 0 (pushTrimmed chunks cur) = Some (pushTrimmed chunks cur @ cs)"
    by blast
  with Cons.IH show ?case by simp
qed

lemma chunkByWords_bound:
  assumes "chunkByWords this text = Some cs"
  shows "\<forall>c\<in>set cs. length c \<le> safeChunkSize this"
proof -
  from assms obtain chunks cur where
    loop: "wordLoop (safeChunkSize this) (jsSplit whiteSpaceRun text) [] [] = Some (chunks, cur)"
    and cs: "cs = pushTrimmed chunks cur"
    by (auto simp: chunkByWords_def split: option.splits)
  from wordLoop_bound [OF loop] have "\<forall>c\<in>set chunks. length c \<le> safeChunkSize this"
    "length cur \<le> safeChunkSize this" by simp_all
  then show ?thesis unfolding cs by (rule pushTrimmed_bound)
qed

lemma chunkByWords_total:
  assumes "0 < safeChunkSize this"
  shows "\<exists>cs. chunkByWords this text = Some cs"
  using wordLoop_total [OF assms, of "jsSplit whiteSpaceRun text" "[]" "[]"]
  by (auto simp: chunkByWords_def)

lemma sentenceLoop_bound:
  "sentenceLoop eng this sentences chunks cur = Some (Inr (chunks', cur')) \<Longrightarrow>
   \<forall>c\<in>set chunks. length c \<le> safeChunkSize this \<Longrightarrow> length cur \<le> safeChunkSize this \<Longrightarrow>
   (\<forall>c\<in>set chunks'. length c \<le> safeChunkSize this) \<and> length cur' \<le> safeChunkSize this"
proof (induction sentences arbitrary: chunks cur)
  case Nil
  then show ?case by simp
next
  case (Cons sentence sentences)
  let ?safe = "safeChunkSize this"
  have pushed: "\<forall>c\<in>set (pushTrimmed chunks cur). length c \<le> ?safe"
    using Cons.prems(2,3) by (rule pushTrimmed_bound)
  consider (long) "length sentence > ?safe"
    | (flush) "\<not> length sentence > ?safe" "length cur + length sentence + 1 > ?safe"
    | (add) "\<not> length sentence > ?safe" "\<not> length cur + length sentence + 1 > ?safe"
    by blast
  then show ?case
  proof cases
    case long
    with Cons.prems(1) obtain cs where cs: "chunkByWords this sentence = Some cs"
      and rest: "sentenceLoop eng this sentences (pushTrimmed chunks cur @ cs)
                   (if length (trim cur) > 0 then [] else cur) = Some (Inr (chunks', cur'))"
      by (auto simp: pushSpread_def split: option.splits sum.splits if_splits)
    from chunkByWords_bound [OF cs] pushed
    have "\<forall>c\<in>set (pushTrimmed chunks cur @ cs). length c \<le> ?safe" by auto
    moreover have "length (if length (trim cur) > 0 then [] else cur) \<le> ?safe"
      using Cons.prems(3) by simp
    ultimately show ?thesis using Cons.IH [OF rest] by blast
  next
    case flush
    with Cons.prems(1) have rest:
      "sentenceLoop eng this sentences (pushTrimmed chunks cur) sentence = Some (Inr (chunks', cur'))"
      by simp
    from flush(1) have "length sentence \<le> ?safe" by simp
    with Cons.IH [OF rest pushed] show ?thesis by blast
  next
    case add
    let ?cur = "cur @ (if length cur > 0 then js '' '' else []) @ sentence"
    from add Cons.prems(1) have rest:
      "sentenceLoop eng this sentences chunks ?cur = Some (Inr (chunks', cur'))"
      by simp
    have "length ?cur \<le> ?safe" using add(2) by (simp add: js_def)
    with Cons.IH [OF rest Cons.prems(2)] show ?thesis by blast
  qed
qed

text \<open>With a positive step every loop ends: it returns or it throws.\<close>

lemma sentenceLoop_total:
  assumes "0 < safeChunkSize this"
  shows "\<exists>r. sentenceLoop eng this sentences chunks cur = Some r"
proof (induction sentences arbitrary: chunks cur)
  case Nil
  show ?case by simp
next
  case (Cons sentence sentences)
  from chunkByWords_total [OF assms, of sentence]
  obtain cs where "chunkByWords this sentence = Some cs" by blast
  with Cons.IH show ?case by (simp add: pushSpread_def)
qed

lemma chunkBySentences_bound:
  assumes "chunkBySentences eng this text = Some (Inr cs)"
  shows "\<forall>c\<in>set cs. length c \<le> safeChunkSize this"
proof -
  from assms obtain chunks cur where
    loop: "sentenceLoop eng this (splitIntoSentences text) [] [] = Some (Inr (chunks, cur))"
    and cs: "cs = pushTrimmed chunks cur"
    by (auto simp: chunkBySentences_def split: option.splits sum.splits)
  from sentenceLoop_bound [OF loop] have "\<forall>c\<in>set chunks. length c \<le> safeChunkSize this"
    "length cur \<le> safeChunkSize this" by simp_all
  then show ?thesis unfolding cs by (rule pushTrimmed_bound)
qed

lemma chunkBySentences_total:
  assumes "0 < safeChunkSize this"
  shows "\<exists>r. chunkBySentences eng this text = Some r"
  using sentenceLoop_total [OF assms, of eng "splitIntoSentences text" "[]" "[]"]
  by (auto simp: chunkBySentences_def split: sum.splits)

text \<open>The paragraph loop keeps everything within one character above the safe size.\<close>

lemma paragraphLoop_bound:
  "paragraphLoop eng this paragraphs chunks cur = Some (Inr (chunks', cur')) \<Longrightarrow>
   \<forall>c\<in>set chunks. length c \<le> safeChunkSize this + 1 \<Longrightarrow> length cur \<le> safeChunkSize this + 1 \<Longrightarrow>
   (\<forall>c\<in>set chunks'. length c \<le> safeChunkSize this + 1) \<and> length cur' \<le> safeChunkSize this + 1"
proof (induction paragraphs arbitrary: chunks cur)
  case Nil
  then show ?case by simp
next
  case (Cons para paragraphs)
  let ?safe = "safeChunkSize this"
  have pushed: "\<forall>c\<in>set (pushTrimmed chunks cur). length c \<le> ?safe + 1"
    using Cons.prems(2,3) by (rule pushTrimmed_bound)
  consider (long) "length para > ?safe"
    | (flush) "\<not> length para > ?safe" "length cur + length para + 1 > ?safe"
    | (add) "\<not> length para > ?safe" "\<not> length cur + length para + 1 > ?safe"
    by blast
  then show ?case
  proof cases
    case long
    with Cons.prems(1) obtain cs where cs: "chunkBySentences eng this para = Some (Inr cs)"
      and rest: "paragraphLoop eng this paragraphs (pushTrimmed chunks cur @ cs)
                   (if length (trim cur) > 0 then [] else cur) = Some (Inr (chunks', cur'))"
      by (auto simp: pushSpread_def split: option.splits sum.splits if_splits)
    from chunkBySentences_bound [OF cs] have "\<forall>c\<in>set cs. length c \<le> ?safe + 1" by auto
    with pushed have "\<forall>c\<in>set (pushTrimmed chunks cur @ cs). length c \<le> ?safe + 1" by auto
    moreover have "length (if length (trim cur) > 0 then [] else cur) \<le> ?safe + 1"
      using Cons.prems(3) by simp
    ultimately show ?thesis using Cons.IH [OF rest] by blast
  next
    case flush
    with Cons.prems(1) have rest:
      "paragraphLoop eng this paragraphs (pushTrimmed chunks cur) para = Some (Inr (chunks', cur'))"
      by simp
    from flush(1) have "length para \<le> ?safe + 1" by simp
    with Cons.IH [OF rest pushed] show ?thesis by blast
  next
    case add
    let ?cur = "cur @ (if length cur > 0 then [10, 10] else []) @ para"
    from add Cons.prems(1) have rest:
      "paragraphLoop eng this paragraphs chunks ?cur = Some (Inr (chunks', cur'))"
      by simp
    have "length ?cur \<le> ?safe + 1" using add(2) by simp
    with Cons.IH [OF rest Cons.prems(2)] show ?thesis by blast
  qed
qed

lemma paragraphLoop_total:
  assumes "0 < safeChunkSize this"
  shows "\<exists>r. paragraphLoop eng this paragraphs chunks cur = Some r"
proof (induction paragraphs arbitrary: chunks cur)
  case Nil
  show ?case by simp
next
  case (Cons para paragraphs)
  from chunkBySentences_total [OF assms, of eng para]
  obtain r where "chunkBySentences eng this para = Some r" by blast
  with Cons.IH show ?case by (auto simp: pushSpread_def split: sum.splits)
qed

lemma chunk_bound:
  assumes "chunk eng this text = Some (Inr cs)"
  shows "\<forall>c\<in>set cs. length c \<le> safeChunkSize this + 1"
proof -
  consider (blank) "length (trim text) = 0"
    | (short) "length (trim text) \<noteq> 0" "length text \<le> safeChunkSize this"
    | (long) "length (trim text) \<noteq> 0" "\<not> length text \<le> safeChunkSize this"
    by blast
  then show ?thesis
  proof cases
    case blank
    with assms show ?thesis by (auto simp: chunk_def)
  next
    case short
    with assms have "cs = [trim text]" by (auto simp: chunk_def)
    with short(2) length_trim_le [of "text"] show ?thesis by simp
  next
    case long
    with assms obtain chunks cur where
      loop: "paragraphLoop eng this (splitIntoParagraphs text) [] [] = Some (Inr (chunks, cur))"
      and cs: "cs = filter (\<lambda>c. length c > 0) (pushTrimmed chunks cur)"
      by (auto simp: chunk_def split: option.splits sum.splits)
    from paragraphLoop_bound [OF loop]
    have "\<forall>c\<in>set chunks. length c \<le> safeChunkSize this + 1" "length cur \<le> safeChunkSize this + 1"
      by simp_all
    then have "\<forall>c\<in>set (pushTrimmed chunks cur). length c \<le> safeChunkSize this + 1"
      by (rule pushTrimmed_bound)
    then show ?thesis unfolding cs by simp
  qed
qed

lemma chunk_total:
  assumes "0 < safeChunkSize this"
  shows "\<exists>r. chunk eng this text = Some r"
  using paragraphLoop_total [OF assms, of eng "splitIntoParagraphs text" "[]" "[]"]
  by (auto simp: chunk_def split: sum.splits)

subsection \<open>Evaluation\<close>

lemmas chunker_defs = chunk_def newTextChunker_def js_def trim_def isWhiteSpace_def
  splitIntoParagraphs_def splitIntoSentences_def jsSplit_def paragraphBreak_def
  sentenceRegex_def whiteSpaceRun_def lookbehind_def isTerminator_def isQuote_def isCapital_def
  pushTrimmed_def pushSpread_def chunkBySentences_def chunkByWords_def slice_def validateChunks_def

lemma charLoop_zero_None: "i < length word \<Longrightarrow> charLoop 0 word i chunks = None"
  using charLoop_zero_step [of word i chunks] by (cases "charLoop 0 word i chunks") auto


subsection \<open>Text without white space\<close>

lemma dropWhile_none: "\<forall>c\<in>set w. \<not> P c \<Longrightarrow> dropWhile P w = w"
  by (cases w) auto

lemma trim_no_whitespace: "\<forall>c\<in>set w. \<not> isWhiteSpace c \<Longrightarrow> trim w = w"
  by (simp add: trim_def dropWhile_none)

lemma jsSplitLoop_no_whitespace:
  assumes m: "\<And>prev c cs. \<not> isWhiteSpace c \<Longrightarrow> m prev (c # cs) = None"
  shows "\<forall>c\<in>set rest. \<not> isWhiteSpace c \<Longrightarrow> jsSplitLoop m prev piece rest = [piece @ rest]"
  by (induction rest arbitrary: prev piece) (simp_all add: m)

lemma paragraphBreak_needs_whitespace: "\<not> isWhiteSpace c \<Longrightarrow> paragraphBreak prev (c # cs) = None"
  by (auto simp: paragraphBreak_def isWhiteSpace_def)

lemma sentenceRegex_needs_whitespace: "\<not> isWhiteSpace c \<Longrightarrow> sentenceRegex prev (c # cs) = None"
  by (simp add: sentenceRegex_def)

lemma whiteSpaceRun_needs_whitespace: "\<not> isWhiteSpace c \<Longrightarrow> whiteSpaceRun prev (c # cs) = None"
  by (simp add: whiteSpaceRun_def)

lemma jsSplit_word:
  assumes "w \<noteq> []" and "\<forall>c\<in>set w. \<not> isWhiteSpace c"
  shows "jsSplit paragraphBreak w = [w]" and "jsSplit sentenceRegex w = [w]"
    and "jsSplit whiteSpaceRun w = [w]"
  using assms
  by (simp_all add: jsSplit_def jsSplitLoop_no_whitespace paragraphBreak_needs_whitespace
        sentenceRegex_needs_whitespace whiteSpaceRun_needs_whitespace)

subsection \<open>Sentence boundaries\<close>

lemma whitespace_not_mark: "isWhiteSpace c \<Longrightarrow> \<not> isTerminator c \<and> \<not> isQuote c \<and> \<not> isCapital c"
  by (auto simp: isWhiteSpace_def isTerminator_def isQuote_def isCapital_def)

lemma sentenceRegex_Some:
  assumes "sentenceRegex prev rest = Some n"
  shows "0 < n" and "n \<le> length rest" and "take n rest = takeWhile isWhiteSpace rest"
    and "drop n rest = dropWhile isWhiteSpace rest"
proof -
  from assms have n: "n = length (takeWhile isWhiteSpace rest)" and ne: "takeWhile isWhiteSpace rest \<noteq> []"
    by (auto simp: sentenceRegex_def Let_def split: if_splits)
  from ne show "0 < n" by (simp add: n)
  show "n \<le> length rest" by (simp add: n length_takeWhile_le)
  show "take n rest = takeWhile isWhiteSpace rest"
    unfolding n by (metis append_eq_conv_conj takeWhile_dropWhile_id)
  show "drop n rest = dropWhile isWhiteSpace rest"
    unfolding n by (metis append_eq_conv_conj takeWhile_dropWhile_id)
qed

text \<open>A block without white space is never cut by a match made of white space.\<close>

lemma sublist_skip:
  assumes "sublist d (xs @ ws @ ys)" and "d \<noteq> []" and "\<forall>c\<in>set d. \<not> P c"
    and "ws \<noteq> []" and "\<forall>c\<in>set ws. P c"
  shows "sublist d xs \<or> sublist d ys"
proof -
  from assms(1) obtain u v where eq: "xs @ ws @ ys = u @ d @ v" by (auto simp: sublist_def)
  show ?thesis
  proof (cases "length u + length d \<le> length xs")
    case True
    from eq have "take (length u + length d) (xs @ ws @ ys) = take (length u + length d) (u @ d @ v)"
      by simp
    with True have "take (length u + length d) xs = u @ d" by simp
    then have "xs = u @ d @ drop (length u + length d) xs"
      by (metis append_assoc append_take_drop_id)
    then show ?thesis by (metis sublist_appendI)
  next
    case False
    have "length xs + length ws \<le> length u"
    proof (rule ccontr)
      assume "\<not> length xs + length ws \<le> length u"
      define k where "k = max (length xs) (length u)"
      have k: "length xs \<le> k" "k < length xs + length ws" "length u \<le> k" "k < length u + length d"
        using False \<open>\<not> length xs + length ws \<le> length u\<close> assms(2,4)
        by (auto simp: k_def)
      have inws: "k - length xs < length ws" using k(1,2) by arith
      have ind: "k - length u < length d" using k(3,4) by arith
      have "(xs @ ws @ ys) ! k = ws ! (k - length xs)"
        using k(1) inws by (simp add: nth_append)
      moreover have "(u @ d @ v) ! k = d ! (k - length u)"
        using k(3) ind by (simp add: nth_append)
      moreover have "ws ! (k - length xs) \<in> set ws" using inws by simp
      moreover have "d ! (k - length u) \<in> set d" using ind by simp
      ultimately show False using eq assms(3,5) by metis
    qed
    then have "drop (length xs + length ws) (xs @ ws @ ys) = drop (length xs + length ws) (u @ d @ v)"
      using eq by simp
    with \<open>length xs + length ws \<le> length u\<close>
    have "ys = drop (length xs + length ws) u @ d @ v" by simp
    then show ?thesis by (metis sublist_appendI)
  qed
qed

lemma jsSplitLoop_keeps_block:
  assumes "d \<noteq> []" and "\<forall>c\<in>set d. \<not> isWhiteSpace c"
  shows "sublist d (piece @ rest) \<Longrightarrow>
         \<exists>s\<in>set (jsSplitLoop sentenceRegex prev piece rest). sublist d s"
proof (induction "length rest" arbitrary: prev piece rest rule: less_induct)
  case less
  show ?case
  proof (cases rest)
    case Nil
    with less.prems show ?thesis by simp
  next
    case (Cons c cs)
    show ?thesis
    proof (cases "sentenceRegex prev rest")
      case None
      have "sublist d ((piece @ [c]) @ cs)" using less.prems Cons by simp
      from less.hyps [OF _ this, of "c # prev"] Cons None show ?thesis by simp
    next
      case (Some n)
      note facts = sentenceRegex_Some [OF Some]
      have run: "\<forall>x\<in>set (take n rest). isWhiteSpace x"
        unfolding facts(3) by (metis set_takeWhileD)
      have "sublist d (piece @ take n rest @ drop n rest)" using less.prems by simp
      moreover have "take n rest \<noteq> []" using facts(1) Cons by simp
      ultimately have cases: "sublist d piece \<or> sublist d (drop n rest)"
        using assms run by (intro sublist_skip [of d piece "take n rest" "drop n rest" isWhiteSpace])
      have shorter: "length (drop n rest) < length rest" using facts(1) Cons by simp
      have unfold: "jsSplitLoop sentenceRegex prev piece rest =
          piece # jsSplitLoop sentenceRegex (rev (take n rest) @ prev) [] (drop n rest)"
        using Some facts(1) Cons by (simp add: min_def)
      from cases show ?thesis
      proof
        assume "sublist d piece"
        then show ?thesis unfolding unfold by simp
      next
        assume "sublist d (drop n rest)"
        then have "sublist d ([] @ drop n rest)" by simp
        from less.hyps [OF shorter this, of "rev (take n rest) @ prev"]
        show ?thesis unfolding unfold by auto
      qed
    qed
  qed
qed

lemma sublist_dropWhile:
  assumes "sublist d s" and "d \<noteq> []" and "\<not> P (hd d)"
  shows "sublist d (dropWhile P s)"
proof -
  from assms(1) obtain u v where "s = u @ d @ v" by (auto simp: sublist_def)
  moreover have "sublist d (dropWhile P (u @ d @ v))"
  proof (induction u)
    case Nil
    from assms(2,3) show ?case by (cases d) auto
  next
    case (Cons a u)
    then show ?case by (auto simp: sublist_Cons_right)
  qed
  ultimately show ?thesis by simp
qed

lemma sublist_trim:
  assumes "sublist d s" and "d \<noteq> []" and "\<forall>c\<in>set d. \<not> isWhiteSpace c"
  shows "sublist d (trim s)"
proof -
  have "sublist d (dropWhile isWhiteSpace s)"
    using assms by (intro sublist_dropWhile) auto
  then have "sublist (rev d) (rev (dropWhile isWhiteSpace s))" by simp
  then have "sublist (rev d) (dropWhile isWhiteSpace (rev (dropWhile isWhiteSpace s)))"
    using assms(2,3) by (intro sublist_dropWhile) (auto simp: hd_rev)
  then show ?thesis unfolding trim_def by (simp add: sublist_rev_left)
qed

lemma splitIntoSentences_keeps_block:
  assumes "d \<noteq> []" and "\<forall>c\<in>set d. \<not> isWhiteSpace c"
  shows "\<exists>s\<in>set (splitIntoSentences (pre @ d @ post)). sublist d s"
proof -
  have "pre @ d @ post \<noteq> []" using assms(1) by simp
  moreover have "sublist d ([] @ pre @ d @ post)" by simp
  from jsSplitLoop_keeps_block [OF assms this, of "[]"]
  obtain s where s: "s \<in> set (jsSplitLoop sentenceRegex [] [] (pre @ d @ post))" "sublist d s"
    by blast
  from sublist_trim [OF s(2) assms] have t: "sublist d (trim s)" .
  with assms(1) have "trim s \<noteq> []" by auto
  with s(1) \<open>pre @ d @ post \<noteq> []\<close> have "trim s \<in> set (splitIntoSentences (pre @ d @ post))"
    by (auto simp: splitIntoSentences_def jsSplit_def)
  with t show ?thesis by blast
qed

lemma rev_last: "xs \<noteq> [] \<Longrightarrow> rev xs = last xs # rev (butlast xs)"
  by (induction xs rule: rev_induct) simp_all

text \<open>The lookbehind sees at most two code units.\<close>

lemma jsSplitLoop_prev:
  assumes "\<And>x. lookbehind (x @ p1) = lookbehind (x @ p2)"
  shows "jsSplitLoop sentenceRegex p1 piece rest = jsSplitLoop sentenceRegex p2 piece rest"
  using assms
proof (induction "length rest" arbitrary: p1 p2 piece rest rule: less_induct)
  case less
  show ?case
  proof (cases rest)
    case Nil
    then show ?thesis by simp
  next
    case (Cons c cs)
    from less.prems [of "[]"] have same: "sentenceRegex p1 rest = sentenceRegex p2 rest"
      by (simp add: sentenceRegex_def)
    show ?thesis
    proof (cases "sentenceRegex p2 rest")
      case None
      have "jsSplitLoop sentenceRegex (c # p1) (piece @ [c]) cs =
            jsSplitLoop sentenceRegex (c # p2) (piece @ [c]) cs"
      proof (rule less.hyps)
        show "length cs < length rest" using Cons by simp
        show "lookbehind (x @ c # p1) = lookbehind (x @ c # p2)" for x
          using less.prems [of "x @ [c]"] by simp
      qed
      with None same Cons show ?thesis by simp
    next
      case (Some n)
      note facts = sentenceRegex_Some [OF Some]
      have "jsSplitLoop sentenceRegex (rev (take n rest) @ p1) [] (drop n rest) =
            jsSplitLoop sentenceRegex (rev (take n rest) @ p2) [] (drop n rest)"
      proof (rule less.hyps)
        show "length (drop n rest) < length rest" using facts(1) Cons by simp
        show "lookbehind (x @ rev (take n rest) @ p1) = lookbehind (x @ rev (take n rest) @ p2)" for x
          using less.prems [of "x @ rev (take n rest)"] by simp
      qed
      with Some same facts(1) Cons show ?thesis by (simp add: min_def)
    qed
  qed
qed

lemma lookbehind_after_whitespace:
  assumes "isWhiteSpace w"
  shows "lookbehind (x @ w # p) = lookbehind (x @ [])"
proof (cases x)
  case Nil
  with assms whitespace_not_mark [of w] show ?thesis by (simp add: lookbehind_def)
next
  case (Cons a x')
  with assms whitespace_not_mark [of w] show ?thesis
    by (cases x') (simp_all add: lookbehind_def)
qed

lemma lookbehind_not_whitespace: "lookbehind (c # p) \<Longrightarrow> \<not> isWhiteSpace c"
  using whitespace_not_mark [of c] by (auto simp: lookbehind_def)

text \<open>
  Where the text read so far ends as the lookbehind asks, and white space and then a
  capital letter follow, the loop closes the piece there and starts afresh on what follows.
\<close>

lemma jsSplitLoop_boundary:
  assumes ws: "ws \<noteq> []" "\<forall>c\<in>set ws. isWhiteSpace c"
    and post: "post \<noteq> []" "isCapital (hd post)"
  shows "lookbehind (rev r @ prev) \<Longrightarrow>
         jsSplitLoop sentenceRegex prev piece (r @ ws @ post) =
         jsSplitLoop sentenceRegex prev piece r @ jsSplitLoop sentenceRegex [] [] post"
proof (induction "length r" arbitrary: prev piece r rule: less_induct)
  case less
  from post obtain a as where postc: "post = a # as" "isCapital a" by (cases post) auto
  then have nows: "\<not> isWhiteSpace a" using whitespace_not_mark [of a] by auto
  from ws(1) obtain w ws' where wsc: "ws = w # ws'" by (cases ws) auto
  have tw: "takeWhile isWhiteSpace (ws @ a # as) = ws" "dropWhile isWhiteSpace (ws @ a # as) = a # as"
    using ws(2) nows by (simp_all add: takeWhile_append2 dropWhile_append2)
  show ?case
  proof (cases r)
    case Nil
    with less.prems have lb: "lookbehind prev" by simp
    have m: "sentenceRegex prev (ws @ post) = Some (length ws)"
      unfolding postc(1) using lb ws(1) postc(2) by (simp add: sentenceRegex_def tw)
    have indep: "jsSplitLoop sentenceRegex (rev ws @ prev) [] post = jsSplitLoop sentenceRegex [] [] post"
    proof (rule jsSplitLoop_prev)
      fix x
      have "isWhiteSpace (last ws)" using ws by simp
      from lookbehind_after_whitespace [OF this, of x "rev (butlast ws) @ prev"]
      show "lookbehind (x @ rev ws @ prev) = lookbehind (x @ [])"
        by (simp add: rev_last [OF ws(1)])
    qed
    have "jsSplitLoop sentenceRegex prev piece (ws @ post) =
          piece # jsSplitLoop sentenceRegex (rev ws @ prev) [] post"
      using m wsc by (simp add: min_def)
    with indep Nil show ?thesis by simp
  next
    case (Cons c cs)
    have lastr: "\<not> isWhiteSpace (last r)"
    proof -
      have "r \<noteq> []" using Cons by simp
      from less.prems have "lookbehind (last r # rev (butlast r) @ prev)"
        by (simp add: rev_last [OF \<open>r \<noteq> []\<close>])
      then show ?thesis by (rule lookbehind_not_whitespace)
    qed
    have lastin: "last r \<in> set r" using Cons by simp
    have tw': "takeWhile isWhiteSpace (r @ ws @ post) = takeWhile isWhiteSpace r"
      using lastin lastr by (rule takeWhile_append1)
    have dw': "dropWhile isWhiteSpace (r @ ws @ post) = dropWhile isWhiteSpace r @ ws @ post"
      using lastin lastr by (rule dropWhile_append1)
    have dne: "dropWhile isWhiteSpace r \<noteq> []"
      using lastin lastr by (metis dropWhile_eq_Nil_conv)
    have same: "sentenceRegex prev (r @ ws @ post) = sentenceRegex prev r"
      using dne by (cases "dropWhile isWhiteSpace r") (simp_all add: sentenceRegex_def tw' dw')
    show ?thesis
    proof (cases "sentenceRegex prev r")
      case None
      have "jsSplitLoop sentenceRegex (c # prev) (piece @ [c]) (cs @ ws @ post) =
            jsSplitLoop sentenceRegex (c # prev) (piece @ [c]) cs @ jsSplitLoop sentenceRegex [] [] post"
      proof (rule less.hyps)
        show "length cs < length r" using Cons by simp
        show "lookbehind (rev cs @ c # prev)" using less.prems Cons by simp
      qed
      with None same Cons show ?thesis by simp
    next
      case (Some n)
      note facts = sentenceRegex_Some [OF Some]
      have tk: "take n (r @ ws @ post) = take n r" "drop n (r @ ws @ post) = drop n r @ ws @ post"
        using facts(2) by simp_all
      have "jsSplitLoop sentenceRegex (rev (take n r) @ prev) [] (drop n r @ ws @ post) =
            jsSplitLoop sentenceRegex (rev (take n r) @ prev) [] (drop n r)
              @ jsSplitLoop sentenceRegex [] [] post"
      proof (rule less.hyps)
        show "length (drop n r) < length r" using facts(1) Cons by simp
        have "rev (drop n r) @ rev (take n r) = rev r"
          by (metis append_take_drop_id rev_append)
        with less.prems show "lookbehind (rev (drop n r) @ rev (take n r) @ prev)"
          by (metis append_assoc)
      qed
      moreover have "jsSplitLoop sentenceRegex prev piece (r @ ws @ post) =
          piece # jsSplitLoop sentenceRegex (rev (take n (r @ ws @ post)) @ prev) []
                    (drop n (r @ ws @ post))"
        using Some same facts(1) Cons by (simp add: min_def)
      moreover have "jsSplitLoop sentenceRegex prev piece r =
          piece # jsSplitLoop sentenceRegex (rev (take n r) @ prev) [] (drop n r)"
        using Some facts(1) Cons by (simp add: min_def)
      ultimately show ?thesis using facts(2) by simp
    qed
  qed
qed

lemma splitIntoSentences_boundary:
  assumes "pre \<noteq> []" and "isTerminator (last pre)"
    and "ws \<noteq> []" and "\<forall>c\<in>set ws. isWhiteSpace c"
    and "post \<noteq> []" and "isCapital (hd post)"
  shows "splitIntoSentences (pre @ ws @ post) = splitIntoSentences pre @ splitIntoSentences post"
proof -
  have "lookbehind (last pre # rev (butlast pre))" using assms(2) by (simp add: lookbehind_def)
  then have "lookbehind (rev pre @ [])" by (simp add: rev_last [OF assms(1)])
  from jsSplitLoop_boundary [OF assms(3-6) this, of "[]"]
  show ?thesis using assms(1,5) by (simp add: splitIntoSentences_def jsSplit_def)
qed

subsection \<open>Trimming\<close>

lemma trim_eq_Nil_iff: "trim s = [] \<longleftrightarrow> (\<forall>c\<in>set s. isWhiteSpace c)"
proof
  assume "trim s = []"
  then have "\<forall>c\<in>set (dropWhile isWhiteSpace s). isWhiteSpace c"
    by (simp add: trim_def dropWhile_eq_Nil_conv)
  then have "dropWhile isWhiteSpace s = []"
    by (metis hd_dropWhile list.set_sel(1))
  then show "\<forall>c\<in>set s. isWhiteSpace c" by (simp add: dropWhile_eq_Nil_conv)
next
  assume "\<forall>c\<in>set s. isWhiteSpace c"
  then have d: "dropWhile isWhiteSpace s = []" by (simp add: dropWhile_eq_Nil_conv)
  show "trim s = []" unfolding trim_def d by simp
qed

text \<open>A text that is not blank is its trimmed text between two runs of white space.\<close>

lemma trim_decomp:
  assumes "trim s \<noteq> []"
  shows "\<exists>l r. s = l @ trim s @ r \<and> (\<forall>c\<in>set l. isWhiteSpace c) \<and> (\<forall>c\<in>set r. isWhiteSpace c)
           \<and> \<not> isWhiteSpace (hd (trim s)) \<and> \<not> isWhiteSpace (last (trim s))"
proof -
  define l where "l = takeWhile isWhiteSpace s"
  define d where "d = dropWhile isWhiteSpace s"
  define r where "r = rev (takeWhile isWhiteSpace (rev d))"
  have t: "trim s = rev (dropWhile isWhiteSpace (rev d))" by (simp add: trim_def d_def)
  have s: "s = l @ d" by (simp add: l_def d_def)
  have d: "d = trim s @ r" unfolding t r_def
    by (metis rev_append rev_rev_ident takeWhile_dropWhile_id)
  have l: "\<forall>c\<in>set l. isWhiteSpace c" unfolding l_def by (metis set_takeWhileD)
  have r: "\<forall>c\<in>set r. isWhiteSpace c" unfolding r_def by (metis set_rev set_takeWhileD)
  have "dropWhile isWhiteSpace (rev d) \<noteq> []" using assms t by simp
  then have "\<not> isWhiteSpace (hd (dropWhile isWhiteSpace (rev d)))" by (rule hd_dropWhile)
  then have la: "\<not> isWhiteSpace (last (trim s))" using assms by (simp add: t last_rev)
  have "d \<noteq> []" using assms d by auto
  then have "\<not> isWhiteSpace (hd d)" unfolding d_def by (rule hd_dropWhile)
  with d assms have hd: "\<not> isWhiteSpace (hd (trim s))" by (metis hd_append2)
  from s d l r hd la show ?thesis by auto
qed

lemma trim_core:
  assumes "\<forall>c\<in>set l. isWhiteSpace c" and "\<forall>c\<in>set r. isWhiteSpace c"
    and "m \<noteq> []" and "\<not> isWhiteSpace (hd m)" and "\<not> isWhiteSpace (last m)"
  shows "trim (l @ m @ r) = m"
proof -
  have "dropWhile isWhiteSpace (l @ m @ r) = m @ r"
    using assms(1,3,4) by (cases m) (simp_all add: dropWhile_append2)
  moreover have "dropWhile isWhiteSpace (rev r @ rev m) = dropWhile isWhiteSpace (rev m)"
    using assms(2) by (intro dropWhile_append2) simp
  moreover have "dropWhile isWhiteSpace (rev m) = rev m"
    using assms(3,5) by (cases m rule: rev_cases) simp_all
  ultimately show ?thesis by (simp add: trim_def)
qed

lemma trim_idem: "trim (trim s) = trim s"
proof (cases "trim s = []")
  case True
  show ?thesis unfolding True by (simp add: trim_def)
next
  case False
  from trim_decomp [OF False] have "\<not> isWhiteSpace (hd (trim s))" "\<not> isWhiteSpace (last (trim s))"
    by auto
  with False trim_core [of "[]" "[]" "trim s"] show ?thesis by simp
qed

text \<open>Trimmed lengths on both sides of a gap of white space.\<close>

lemma trim_gap:
  assumes "\<forall>c\<in>set g. isWhiteSpace c"
  shows "length (trim a) + length (trim b) + (if trim a \<noteq> [] \<and> trim b \<noteq> [] then length g else 0)
           \<le> length (trim (a @ g @ b))"
proof (cases "trim a = []")
  case True
  then have "\<forall>c\<in>set (a @ g). isWhiteSpace c" using assms by (simp add: trim_eq_Nil_iff ball_Un)
  then have "dropWhile isWhiteSpace ((a @ g) @ b) = dropWhile isWhiteSpace b"
    by (intro dropWhile_append2) auto
  then have "trim (a @ g @ b) = trim b" by (simp add: trim_def)
  with True show ?thesis by simp
next
  case False
  from trim_decomp [OF False] obtain la ra where a: "a = la @ trim a @ ra"
    "\<forall>c\<in>set la. isWhiteSpace c" "\<forall>c\<in>set ra. isWhiteSpace c"
    "\<not> isWhiteSpace (hd (trim a))" "\<not> isWhiteSpace (last (trim a))"
    by blast
  show ?thesis
  proof (cases "trim b = []")
    case True
    then have "\<forall>c\<in>set (ra @ g @ b). isWhiteSpace c"
      using assms a(3) by (auto simp: trim_eq_Nil_iff)
    from trim_core [OF a(2) this False a(4,5)]
    have "trim (la @ trim a @ ra @ g @ b) = trim a" .
    moreover have "a @ g @ b = la @ trim a @ ra @ g @ b" using a(1) by (metis append_assoc)
    ultimately have "trim (a @ g @ b) = trim a" by (simp only:)
    with True show ?thesis by simp
  next
    case nb: False
    from trim_decomp [OF nb] obtain lb rb where b: "b = lb @ trim b @ rb"
      "\<forall>c\<in>set lb. isWhiteSpace c" "\<forall>c\<in>set rb. isWhiteSpace c"
      "\<not> isWhiteSpace (hd (trim b))" "\<not> isWhiteSpace (last (trim b))"
      by blast
    let ?m = "trim a @ ra @ g @ lb @ trim b"
    have "trim (la @ ?m @ rb) = ?m"
      using False nb a(4) b(5) by (intro trim_core a(2) b(3)) simp_all
    moreover have "a @ g @ b = la @ ?m @ rb"
      using a(1) b(1) by (metis append_assoc)
    ultimately have "length (trim (a @ g @ b)) = length ?m" by (simp only:)
    with False nb show ?thesis by simp
  qed
qed

subsection \<open>Paragraphs of a text that fits\<close>

lemma paragraphBreak_Some:
  assumes "paragraphBreak prev rest = Some n"
  shows "2 \<le> n" and "n \<le> length rest" and "\<forall>c\<in>set (take n rest). isWhiteSpace c"
proof -
  from assms obtain cs where rest: "rest = 10 # cs"
    by (auto simp: paragraphBreak_def split: list.splits if_splits)
  define run where "run = takeWhile isWhiteSpace cs"
  define r where "r = dropWhile (\<lambda>x. x \<noteq> 10) (rev run)"
  from assms have r: "r \<noteq> []" and n: "n = 1 + length r"
    by (auto simp: paragraphBreak_def rest r_def run_def Let_def split: if_splits)
  have "length r \<le> length run" unfolding r_def by (metis length_dropWhile_le length_rev)
  moreover have "length run \<le> length cs" unfolding run_def by (rule length_takeWhile_le)
  ultimately have le: "length r \<le> length run" "length r \<le> length cs" by simp_all
  from r show "2 \<le> n" by (cases r) (simp_all add: n)
  from le show "n \<le> length rest" by (simp add: n rest)
  have "take (length r) cs = take (length r) run"
    using le(1) unfolding run_def by (metis append_eq_conv_conj takeWhile_dropWhile_id take_append
        diff_is_0_eq take_0 append_Nil2)
  moreover have "\<forall>c\<in>set run. isWhiteSpace c" unfolding run_def by (metis set_takeWhileD)
  ultimately have "\<forall>c\<in>set (take (length r) cs). isWhiteSpace c"
    by (metis in_set_takeD)
  then show "\<forall>c\<in>set (take n rest). isWhiteSpace c"
    by (simp add: n rest isWhiteSpace_def)
qed

text \<open>
  The paragraphs of a text, each counted with two joining characters, fit in the trimmed
  text and two more; there is a paragraph exactly if the text is not blank.
\<close>

lemma paragraphs_fit:
  fixes prev piece rest
  defines "ps \<equiv> filter (\<lambda>p. length p > 0) (map trim (jsSplitLoop paragraphBreak prev piece rest))"
  shows "(ps = [] \<longleftrightarrow> trim (piece @ rest) = [])
       \<and> (ps \<noteq> [] \<longrightarrow> sum_list (map (\<lambda>p. length p + 2) ps) \<le> length (trim (piece @ rest)) + 2)"
  unfolding ps_def
proof (induction "length rest" arbitrary: prev piece rest rule: less_induct)
  case less
  show ?case
  proof (cases rest)
    case Nil
    then show ?thesis by simp
  next
    case (Cons c cs)
    show ?thesis
    proof (cases "paragraphBreak prev rest")
      case None
      have "length cs < length rest" using Cons by simp
      from less [OF this, of "c # prev" "piece @ [c]"] None Cons show ?thesis by simp
    next
      case (Some n)
      note facts = paragraphBreak_Some [OF Some]
      define d where "d = drop n rest"
      define g where "g = take n rest"
      define qs where "qs = filter (\<lambda>p. length p > 0)
          (map trim (jsSplitLoop paragraphBreak (rev g @ prev) [] d))"
      have "length d < length rest" using facts(1) Cons by (simp add: d_def)
      from less [OF this, of "rev g @ prev" "[]"]
      have IH: "qs = [] \<longleftrightarrow> trim d = []"
        "qs \<noteq> [] \<longrightarrow> sum_list (map (\<lambda>p. length p + 2) qs) \<le> length (trim d) + 2"
        by (simp_all add: qs_def)
      have unfold: "jsSplitLoop paragraphBreak prev piece rest =
          piece # jsSplitLoop paragraphBreak (rev g @ prev) [] d"
        using Some facts(1) Cons by (simp add: min_def g_def d_def)
      have ps: "filter (\<lambda>p. length p > 0) (map trim (jsSplitLoop paragraphBreak prev piece rest)) =
          (if trim piece = [] then [] else [trim piece]) @ qs"
        unfolding unfold by (simp add: qs_def)
      have g: "\<forall>c\<in>set g. isWhiteSpace c" "2 \<le> length g"
        using facts by (simp_all add: g_def)
      have whole: "piece @ rest = piece @ g @ d" by (simp add: g_def d_def)
      from trim_gap [OF g(1), of piece d]
      have gap: "length (trim piece) + length (trim d)
          + (if trim piece \<noteq> [] \<and> trim d \<noteq> [] then length g else 0) \<le> length (trim (piece @ rest))"
        unfolding whole .
      have blank: "trim (piece @ rest) = [] \<longleftrightarrow> trim piece = [] \<and> trim d = []"
        unfolding whole using g(1) by (auto simp: trim_eq_Nil_iff)
      show ?thesis unfolding ps using IH gap g(2) blank by (auto split: if_splits)
    qed
  qed
qed

text \<open>
  Paragraphs that fit the safe size together with their joins are all accumulated: the
  paragraph loop emits nothing and ends with the paragraphs joined by two line feeds.
\<close>

lemma joinParagraphs_first: "joinParagraphs ((a @ 10 # 10 # p) # ps) = a @ 10 # 10 # joinParagraphs (p # ps)"
  by (cases ps) simp_all

lemma paragraphLoop_accumulates:
  assumes "\<forall>p\<in>set ps. p \<noteq> []"
    and "length cur + sum_list (map (\<lambda>p. length p + 2) ps)
           \<le> safeChunkSize this + (if cur = [] then 2 else 0)"
  shows "paragraphLoop eng this ps [] cur =
           Some (Inr ([], if cur = [] then joinParagraphs ps else joinParagraphs (cur # ps)))"
  using assms
proof (induction ps arbitrary: cur)
  case Nil
  then show ?case by simp
next
  case (Cons p ps)
  have p: "p \<noteq> []" using Cons.prems(1) by simp
  have short: "\<not> length p > safeChunkSize this" using Cons.prems(2) by (auto split: if_splits)
  define next_cur where "next_cur = cur @ (if length cur > 0 then [10, 10] else []) @ p"
  have step: "paragraphLoop eng this (p # ps) [] cur = paragraphLoop eng this ps [] next_cur"
  proof (cases "cur = []")
    case True
    then show ?thesis using short by (simp add: next_cur_def pushTrimmed_def trim_def)
  next
    case False
    with Cons.prems(2) have "\<not> length cur + length p + 1 > safeChunkSize this" by simp
    with short show ?thesis by (simp add: next_cur_def)
  qed
  have ne: "next_cur \<noteq> []" using p by (simp add: next_cur_def)
  have budget: "length next_cur + sum_list (map (\<lambda>p. length p + 2) ps)
      \<le> safeChunkSize this + (if next_cur = [] then 2 else 0)"
    using Cons.prems(2) ne by (auto simp: next_cur_def split: if_splits)
  from Cons.IH [of next_cur] Cons.prems(1) budget ne
  have "paragraphLoop eng this ps [] next_cur = Some (Inr ([], joinParagraphs (next_cur # ps)))"
    by simp
  moreover have "joinParagraphs (next_cur # ps) =
      (if cur = [] then joinParagraphs (p # ps) else joinParagraphs (cur # p # ps))"
    by (simp add: next_cur_def joinParagraphs_first)
  ultimately show ?case using step by simp
qed

text \<open>Joined paragraphs that are trimmed and not empty need no trimming.\<close>

lemma joinParagraphs_ends:
  assumes "ps \<noteq> []" and "\<forall>p\<in>set ps. p \<noteq> [] \<and> \<not> isWhiteSpace (hd p) \<and> \<not> isWhiteSpace (last p)"
  shows "joinParagraphs ps \<noteq> [] \<and> \<not> isWhiteSpace (hd (joinParagraphs ps))
           \<and> \<not> isWhiteSpace (last (joinParagraphs ps))"
  using assms
proof (induction ps rule: joinParagraphs.induct)
  case 1
  then show ?case by simp
next
  case (2 p)
  then show ?case by simp
next
  case (3 p q ps)
  then have "joinParagraphs (q # ps) \<noteq> []" "\<not> isWhiteSpace (last (joinParagraphs (q # ps)))"
    by simp_all
  with "3.prems" show ?case by simp
qed

lemma trim_joinParagraphs:
  assumes "ps \<noteq> []" and "\<forall>p\<in>set ps. p \<noteq> [] \<and> \<not> isWhiteSpace (hd p) \<and> \<not> isWhiteSpace (last p)"
  shows "trim (joinParagraphs ps) = joinParagraphs ps"
  using joinParagraphs_ends [OF assms] trim_core [of "[]" "[]" "joinParagraphs ps"] by simp

lemma splitIntoParagraphs_trimmed:
  assumes "p \<in> set (splitIntoParagraphs text)"
  shows "p \<noteq> [] \<and> \<not> isWhiteSpace (hd p) \<and> \<not> isWhiteSpace (last p)"
proof -
  from assms obtain q where "p = trim q" "trim q \<noteq> []"
    by (auto simp: splitIntoParagraphs_def)
  with trim_decomp [of q] show ?thesis by auto
qed

lemma fits_single_chunk:
  assumes "trim text \<noteq> []" and "length (trim text) \<le> safeChunkSize this"
  shows "chunk eng this text =
     Some (Inr [if length text \<le> safeChunkSize this then trim text
                else joinParagraphs (splitIntoParagraphs text)])"
proof (cases "length text \<le> safeChunkSize this")
  case True
  with assms show ?thesis by (simp add: chunk_def)
next
  case False
  have ne: "text \<noteq> []" using assms(1) by (auto simp: trim_eq_Nil_iff)
  define ps where "ps = splitIntoParagraphs text"
  have ps: "ps = filter (\<lambda>p. length p > 0) (map trim (jsSplitLoop paragraphBreak [] [] text))"
    using ne by (simp add: ps_def splitIntoParagraphs_def jsSplit_def)
  from paragraphs_fit [of "[]" "[]" "text"] assms(1)
  have fit: "ps \<noteq> []" "sum_list (map (\<lambda>p. length p + 2) ps) \<le> length (trim text) + 2"
    unfolding ps by simp_all
  have trimmed: "\<forall>p\<in>set ps. p \<noteq> [] \<and> \<not> isWhiteSpace (hd p) \<and> \<not> isWhiteSpace (last p)"
    unfolding ps_def using splitIntoParagraphs_trimmed by blast
  then have nonempty: "\<forall>p\<in>set ps. p \<noteq> []" by blast
  from paragraphLoop_accumulates [OF nonempty, of "[]" this eng] fit assms(2)
  have loop: "paragraphLoop eng this ps [] [] = Some (Inr ([], joinParagraphs ps))"
    by simp
  have t: "trim (joinParagraphs ps) = joinParagraphs ps" using fit(1) trimmed by (rule trim_joinParagraphs)
  have j: "joinParagraphs ps \<noteq> []" using joinParagraphs_ends [OF fit(1) trimmed] by simp
  from False assms(1) loop t j show ?thesis
    by (simp add: chunk_def pushTrimmed_def flip: ps_def)
qed

text \<open>
  A text that is one word longer than \<open>maxChunkSize\<close>, for a positive step: the character
  loop cuts it into slices, and \<open>chunk\<close> returns them unless they are more than one of the
  two spread calls accepts.
\<close>

lemma long_word_character_split:
  assumes "2 \<le> n" and "\<forall>c\<in>set word. \<not> isWhiteSpace c" and "n < length word"
  shows "\<exists>cs. charLoop (safeChunkSize (newTextChunker n)) word 0 [] = Some cs \<and> concat cs = word
           \<and> (\<forall>c\<in>set (butlast cs). length c = safeChunkSize (newTextChunker n))
           \<and> cs \<noteq> [] \<and> last cs \<noteq> [] \<and> length (last cs) \<le> safeChunkSize (newTextChunker n)
           \<and> chunk eng (newTextChunker n) word =
               Some (if length cs \<le> wordChunksLimit eng \<and> length cs \<le> sentenceChunksLimit eng
                     then Inr cs else Inl RangeError)"
proof -
  let ?T = "newTextChunker n"
  let ?safe = "safeChunkSize ?T"
  have pos: "0 < ?safe" using assms(1) by (rule safe_pos)
  have long: "?safe < length word" using assms(1,3) safe_less_max [of n] by simp
  then have ne: "word \<noteq> []" by auto
  from charLoop_total [OF pos, of word 0 "[]"]
  obtain cs where cs: "charLoop ?safe word 0 [] = Some cs" "concat cs = word"
    "\<forall>c\<in>set cs. c \<noteq> [] \<and> length c \<le> ?safe" "\<forall>c\<in>set (butlast cs). length c = ?safe"
    by auto
  have tr: "trim word = word" using assms(2) by (rule trim_no_whitespace)
  have empty: "trim [] = []" by (simp add: trim_def)
  have words: "chunkByWords ?T word = Some cs"
    using long cs(1) ne by (simp add: chunkByWords_def jsSplit_word [OF ne assms(2)] pushTrimmed_def empty)
  have sentences: "chunkBySentences eng ?T word =
      Some (if length cs \<le> wordChunksLimit eng then Inr cs else Inl RangeError)"
    using long words ne
    by (simp add: chunkBySentences_def splitIntoSentences_def jsSplit_word [OF ne assms(2)] tr
          pushTrimmed_def pushSpread_def empty)
  have keep: "filter (\<lambda>c. length c > 0) cs = cs" using cs(3) by (simp add: filter_id_conv)
  have "chunk eng ?T word =
      Some (if length cs \<le> wordChunksLimit eng \<and> length cs \<le> sentenceChunksLimit eng
            then Inr cs else Inl RangeError)"
    using long sentences ne keep
    by (simp add: chunk_def splitIntoParagraphs_def jsSplit_word [OF ne assms(2)] tr
          pushTrimmed_def pushSpread_def empty)
  moreover from cs(2) ne have "cs \<noteq> []" by auto
  moreover from this cs(3) have "last cs \<noteq> []" "length (last cs) \<le> ?safe" by auto
  ultimately show ?thesis using cs(1,2,4) by blast
qed


subsection \<open>Counting the chunks\<close>

text \<open>
  Trimming, splitting and joining add and remove white space only, and every chunk that is
  emitted holds a code unit that is none. So a text yields at most as many chunks as it
  has such code units, and the spread calls stay within their limits for every text that
  is no longer than these.
\<close>

lemma visible_append [simp]: "visible (a @ b) = visible a + visible b"
  by (simp add: visible_def)

lemma visible_Nil [simp]: "visible [] = 0"
  by (simp add: visible_def)

lemma visible_le_length: "visible s \<le> length s"
  by (simp add: visible_def)

lemma visible_whitespace: "\<forall>c\<in>set s. isWhiteSpace c \<Longrightarrow> visible s = 0"
  by (simp add: visible_def)

lemma visible_no_whitespace: "\<forall>c\<in>set s. \<not> isWhiteSpace c \<Longrightarrow> visible s = length s"
  by (simp add: visible_def)

lemma visible_dropWhile: "visible (dropWhile isWhiteSpace s) = visible s"
  by (induction s) (simp_all add: visible_def)

lemma visible_rev: "visible (rev s) = visible s"
  by (simp add: visible_def flip: rev_filter)

lemma visible_trim: "visible (trim s) = visible s"
  by (simp add: trim_def visible_rev visible_dropWhile)

lemma visible_pos: "trim s \<noteq> [] \<Longrightarrow> 0 < visible s"
  by (auto simp: trim_eq_Nil_iff visible_def filter_empty_conv)

lemma visible_concat: "sum_list (map visible cs) = visible (concat cs)"
  by (induction cs) simp_all

lemma length_le_visible_sum:
  "\<forall>c\<in>set cs. 0 < visible c \<Longrightarrow> length cs \<le> sum_list (map visible cs)"
  by (induction cs) (simp_all add: Suc_le_eq add_pos_nonneg trans_less_add1 Suc_leI add_mono)

lemma pushTrimmed_visible:
  "sum_list (map visible (pushTrimmed chunks cur)) = sum_list (map visible chunks) + visible cur"
proof (cases "trim cur = []")
  case True
  then have "visible cur = 0" using visible_trim [of cur] by simp
  with True show ?thesis by (simp add: pushTrimmed_def)
next
  case False
  then show ?thesis by (simp add: pushTrimmed_def visible_trim)
qed

lemma pushTrimmed_pos:
  "\<forall>c\<in>set chunks. 0 < visible c \<Longrightarrow> \<forall>c\<in>set (pushTrimmed chunks cur). 0 < visible c"
  using visible_pos [of "trim cur"] by (auto simp: pushTrimmed_def trim_idem visible_trim)

lemma reset_visible:
  "sum_list (map visible (pushTrimmed chunks cur)) + visible (if length (trim cur) > 0 then [] else cur)
     = sum_list (map visible chunks) + visible cur"
proof (cases "trim cur = []")
  case True
  then have "visible cur = 0" using visible_trim [of cur] by simp
  with True show ?thesis by (simp add: pushTrimmed_def)
next
  case False
  then show ?thesis by (simp add: pushTrimmed_def visible_trim)
qed

text \<open>A split at matches of white space keeps every other code unit.\<close>

lemma jsSplitLoop_visible:
  assumes "\<And>prev rest n. m prev rest = Some n \<Longrightarrow> \<forall>c\<in>set (take n rest). isWhiteSpace c"
  shows "sum_list (map visible (jsSplitLoop m prev piece rest)) = visible (piece @ rest)"
  using assms
proof (induction m prev piece rest rule: jsSplitLoop.induct)
  case (1 m prev piece)
  show ?case by simp
next
  case (2 m prev piece c cs)
  note white = "2.prems"
  show ?case
  proof (cases "m prev (c # cs)")
    case None
    with "2.IH"(1) [OF None white] show ?thesis by simp
  next
    case (Some n)
    show ?thesis
    proof (cases "min n (length (c # cs)) = 0 \<and> piece = []")
      case True
      with "2.IH"(2) [OF Some True white] Some show ?thesis by simp
    next
      case False
      define rest where "rest = c # cs"
      have step: "jsSplitLoop m prev piece (c # cs)
          = piece # jsSplitLoop m (rev (take n rest) @ prev) [] (drop n rest)"
        unfolding rest_def
        by (subst jsSplitLoop.simps(2)) (simp only: Some option.case False if_False)
      from "2.IH"(3) [OF Some False white]
      have "sum_list (map visible (jsSplitLoop m (rev (take n rest) @ prev) [] (drop n rest)))
          = visible (drop n rest)" by (simp add: rest_def)
      moreover have "visible (take n rest) = 0"
        unfolding rest_def using white [OF Some] by (rule visible_whitespace)
      moreover have "visible rest = visible (take n rest) + visible (drop n rest)"
        by (metis append_take_drop_id visible_append)
      ultimately have "sum_list (map visible (jsSplitLoop m prev piece (c # cs)))
          = visible piece + visible rest" unfolding step by simp
      then show ?thesis by (simp add: rest_def)
    qed
  qed
qed

lemma whiteSpaceRun_Some:
  "whiteSpaceRun prev rest = Some n \<Longrightarrow> \<forall>c\<in>set (take n rest). isWhiteSpace c"
proof -
  assume "whiteSpaceRun prev rest = Some n"
  then have "n = length (takeWhile isWhiteSpace rest)"
    by (auto simp: whiteSpaceRun_def Let_def split: if_splits)
  then have "take n rest = takeWhile isWhiteSpace rest"
    by (metis append_eq_conv_conj takeWhile_dropWhile_id)
  then show ?thesis by (auto dest: set_takeWhileD)
qed

lemma jsSplit_visible:
  assumes "\<And>prev rest n. m prev rest = Some n \<Longrightarrow> \<forall>c\<in>set (take n rest). isWhiteSpace c"
  shows "sum_list (map visible (jsSplit m s)) = visible s"
  using jsSplitLoop_visible [of m "[]" "[]" s, OF assms]
  by (auto simp: jsSplit_def split: option.splits)

lemma trimmed_pieces_visible:
  "sum_list (map visible (filter (\<lambda>p. length p > 0) (map trim ps))) = sum_list (map visible ps)"
  by (induction ps) (auto simp: visible_trim dest: arg_cong [where f = visible])

lemma splitIntoSentences_visible:
  "sum_list (map visible (splitIntoSentences s)) = visible s"
  unfolding splitIntoSentences_def trimmed_pieces_visible
proof (rule jsSplit_visible)
  fix prev rest n
  assume "sentenceRegex prev rest = Some n"
  then have "take n rest = takeWhile isWhiteSpace rest" by (rule sentenceRegex_Some(3))
  then show "\<forall>c\<in>set (take n rest). isWhiteSpace c" by (auto dest: set_takeWhileD)
qed

lemma splitIntoParagraphs_visible:
  "sum_list (map visible (splitIntoParagraphs s)) = visible s"
  unfolding splitIntoParagraphs_def trimmed_pieces_visible
  by (rule jsSplit_visible) (rule paragraphBreak_Some(3))

text \<open>The words of a text hold no white space.\<close>

lemma jsSplitLoop_words:
  "\<forall>c\<in>set piece. \<not> isWhiteSpace c \<Longrightarrow>
   \<forall>w\<in>set (jsSplitLoop whiteSpaceRun prev piece rest). \<forall>c\<in>set w. \<not> isWhiteSpace c"
proof (induction "length rest" arbitrary: prev piece rest rule: less_induct)
  case less
  show ?case
  proof (cases rest)
    case Nil
    with less.prems show ?thesis by simp
  next
    case (Cons c cs)
    have shorter: "length cs < length rest" using Cons by simp
    show ?thesis
    proof (cases "isWhiteSpace c")
      case False
      then have none: "whiteSpaceRun prev rest = None" using Cons by (simp add: whiteSpaceRun_def)
      have "\<forall>x\<in>set (piece @ [c]). \<not> isWhiteSpace x" using less.prems False by simp
      from less.hyps [OF shorter this, of "c # prev"] none Cons show ?thesis by simp
    next
      case True
      define n where "n = length (takeWhile isWhiteSpace rest)"
      have some: "whiteSpaceRun prev rest = Some n" and pos: "0 < n"
        using True Cons by (simp_all add: whiteSpaceRun_def n_def)
      have "length (drop n rest) < length rest" using pos Cons by simp
      from less.hyps [OF this, of "[]" "rev (take n rest) @ prev"]
      have "\<forall>w\<in>set (jsSplitLoop whiteSpaceRun (rev (take n rest) @ prev) [] (drop n rest)).
              \<forall>c\<in>set w. \<not> isWhiteSpace c" by simp
      with less.prems some pos Cons show ?thesis by (simp add: min_def)
    qed
  qed
qed

lemma jsSplit_words: "\<forall>w\<in>set (jsSplit whiteSpaceRun s). \<forall>c\<in>set w. \<not> isWhiteSpace c"
  using jsSplitLoop_words [of "[]" "[]" s] by (simp add: jsSplit_def whiteSpaceRun_def)

subsection \<open>The number of chunks\<close>

lemma visible_space [simp]: "visible (js '' '') = 0"
  by (simp add: visible_def js_def isWhiteSpace_def)

lemma visible_line_feeds [simp]: "visible [10, 10] = 0"
  by (simp add: visible_def isWhiteSpace_def)

lemma pushTrimmed_count: "length (pushTrimmed chunks cur) \<le> length chunks + visible cur"
  using visible_pos [of cur] by (auto simp: pushTrimmed_def)

lemma pushTrimmed_reset_count:
  "length (pushTrimmed chunks cur) + visible (if length (trim cur) > 0 then [] else cur)
     \<le> length chunks + visible cur"
  using visible_pos [of cur] by (auto simp: pushTrimmed_def)

lemma length_le_concat: "\<forall>c\<in>set cs. c \<noteq> [] \<Longrightarrow> length cs \<le> length (concat cs)"
proof (induction cs)
  case Nil
  show ?case by simp
next
  case (Cons c cs)
  then have "c \<noteq> []" "length cs \<le> length (concat cs)" by simp_all
  then show ?case by (cases c) simp_all
qed

lemma charLoop_count:
  assumes "0 < safe"
  shows "\<exists>cs. charLoop safe word i chunks = Some (chunks @ cs) \<and> length cs \<le> length word"
proof -
  from charLoop_total [OF assms, of word i chunks]
  obtain cs where run: "charLoop safe word i chunks = Some (chunks @ cs)"
    and cat: "concat cs = drop i word" and ne: "\<forall>c\<in>set cs. c \<noteq> [] \<and> length c \<le> safe"
    by blast
  from ne have "length cs \<le> length (concat cs)" by (intro length_le_concat) simp
  with cat have "length cs \<le> length word" by simp
  with run show ?thesis by blast
qed

lemma wordLoop_count:
  assumes "0 < safe"
  shows "\<forall>w\<in>set words. \<forall>c\<in>set w. \<not> isWhiteSpace c \<Longrightarrow>
         \<exists>chunks' cur'. wordLoop safe words chunks cur = Some (chunks', cur')
           \<and> length chunks' + visible cur' \<le> length chunks + visible cur + sum_list (map visible words)"
proof (induction words arbitrary: chunks cur)
  case Nil
  show ?case by simp
next
  case (Cons word words)
  from Cons.prems have word: "visible word = length word"
    and words: "\<forall>w\<in>set words. \<forall>c\<in>set w. \<not> isWhiteSpace c"
    by (simp_all add: visible_no_whitespace)
  note IH = Cons.IH [OF words]
  consider (long) "length word > safe"
    | (flush) "\<not> length word > safe" "length cur + length word + 1 > safe"
    | (join) "\<not> length word > safe" "\<not> length cur + length word + 1 > safe"
    by blast
  then show ?case
  proof cases
    case long
    define cur0 where "cur0 = (if length (trim cur) > 0 then [] else cur)"
    from charLoop_count [OF assms, of word 0 "pushTrimmed chunks cur"]
    obtain cs where cs: "charLoop safe word 0 (pushTrimmed chunks cur) = Some (pushTrimmed chunks cur @ cs)"
      and n: "length cs \<le> length word" by blast
    from IH [of "pushTrimmed chunks cur @ cs" cur0]
    obtain chunks' cur' where run: "wordLoop safe words (pushTrimmed chunks cur @ cs) cur0 = Some (chunks', cur')"
      and le: "length chunks' + visible cur'
                 \<le> length (pushTrimmed chunks cur @ cs) + visible cur0 + sum_list (map visible words)"
      by blast
    from pushTrimmed_reset_count [of chunks cur]
    have "length (pushTrimmed chunks cur) + visible cur0 \<le> length chunks + visible cur"
      by (simp add: cur0_def)
    with le n word have "length chunks' + visible cur'
        \<le> length chunks + visible cur + sum_list (map visible (word # words))" by simp
    moreover have "wordLoop safe (word # words) chunks cur = Some (chunks', cur')"
      using long cs run by (simp add: cur0_def)
    ultimately show ?thesis by blast
  next
    case flush
    from IH [of "pushTrimmed chunks cur" word]
    obtain chunks' cur' where run: "wordLoop safe words (pushTrimmed chunks cur) word = Some (chunks', cur')"
      and le: "length chunks' + visible cur'
                 \<le> length (pushTrimmed chunks cur) + visible word + sum_list (map visible words)"
      by blast
    from le pushTrimmed_count [of chunks cur] have "length chunks' + visible cur'
        \<le> length chunks + visible cur + sum_list (map visible (word # words))" by simp
    moreover have "wordLoop safe (word # words) chunks cur = Some (chunks', cur')"
      using flush run by simp
    ultimately show ?thesis by blast
  next
    case join
    define cur1 where "cur1 = cur @ (if length cur > 0 then js '' '' else []) @ word"
    have v: "visible cur1 = visible cur + visible word" by (simp add: cur1_def)
    from IH [of chunks cur1]
    obtain chunks' cur' where run: "wordLoop safe words chunks cur1 = Some (chunks', cur')"
      and le: "length chunks' + visible cur' \<le> length chunks + visible cur1 + sum_list (map visible words)"
      by blast
    from le v have "length chunks' + visible cur'
        \<le> length chunks + visible cur + sum_list (map visible (word # words))" by simp
    moreover have "wordLoop safe (word # words) chunks cur = Some (chunks', cur')"
      using join run by (simp add: cur1_def)
    ultimately show ?thesis by blast
  qed
qed

lemma chunkByWords_count:
  assumes "0 < safeChunkSize this"
  shows "\<exists>cs. chunkByWords this text = Some cs \<and> length cs \<le> visible text"
proof -
  from wordLoop_count [OF assms jsSplit_words, of "text" "[]" "[]"]
  obtain chunks cur where
    run: "wordLoop (safeChunkSize this) (jsSplit whiteSpaceRun text) [] [] = Some (chunks, cur)"
    and le: "length chunks + visible cur \<le> sum_list (map visible (jsSplit whiteSpaceRun text))"
    by auto
  have "sum_list (map visible (jsSplit whiteSpaceRun text)) = visible text"
    by (rule jsSplit_visible) (rule whiteSpaceRun_Some)
  with le pushTrimmed_count [of chunks cur] have "length (pushTrimmed chunks cur) \<le> visible text"
    by simp
  with run show ?thesis by (simp add: chunkByWords_def)
qed

lemma sentenceLoop_count:
  assumes "0 < safeChunkSize this"
  shows "\<forall>s\<in>set sentences. visible s \<le> wordChunksLimit eng \<Longrightarrow>
         \<exists>chunks' cur'. sentenceLoop eng this sentences chunks cur = Some (Inr (chunks', cur'))
           \<and> length chunks' + visible cur'
               \<le> length chunks + visible cur + sum_list (map visible sentences)"
proof (induction sentences arbitrary: chunks cur)
  case Nil
  show ?case by simp
next
  case (Cons sentence sentences)
  from Cons.prems have fits: "visible sentence \<le> wordChunksLimit eng"
    and rest: "\<forall>s\<in>set sentences. visible s \<le> wordChunksLimit eng" by simp_all
  note IH = Cons.IH [OF rest]
  consider (long) "length sentence > safeChunkSize this"
    | (flush) "\<not> length sentence > safeChunkSize this"
        "length cur + length sentence + 1 > safeChunkSize this"
    | (join) "\<not> length sentence > safeChunkSize this"
        "\<not> length cur + length sentence + 1 > safeChunkSize this"
    by blast
  then show ?case
  proof cases
    case long
    define cur0 where "cur0 = (if length (trim cur) > 0 then [] else cur)"
    from chunkByWords_count [OF assms, of sentence]
    obtain cs where cs: "chunkByWords this sentence = Some cs" and n: "length cs \<le> visible sentence"
      by blast
    from n fits have push: "pushSpread (wordChunksLimit eng) (pushTrimmed chunks cur) cs
        = Inr (pushTrimmed chunks cur @ cs)" by (simp add: pushSpread_def)
    from IH [of "pushTrimmed chunks cur @ cs" cur0]
    obtain chunks' cur' where
      run: "sentenceLoop eng this sentences (pushTrimmed chunks cur @ cs) cur0 = Some (Inr (chunks', cur'))"
      and le: "length chunks' + visible cur'
                 \<le> length (pushTrimmed chunks cur @ cs) + visible cur0 + sum_list (map visible sentences)"
      by blast
    from pushTrimmed_reset_count [of chunks cur]
    have "length (pushTrimmed chunks cur) + visible cur0 \<le> length chunks + visible cur"
      by (simp add: cur0_def)
    with le n have "length chunks' + visible cur'
        \<le> length chunks + visible cur + sum_list (map visible (sentence # sentences))" by simp
    moreover have "sentenceLoop eng this (sentence # sentences) chunks cur = Some (Inr (chunks', cur'))"
      using long cs push run by (simp add: cur0_def)
    ultimately show ?thesis by blast
  next
    case flush
    from IH [of "pushTrimmed chunks cur" sentence]
    obtain chunks' cur' where
      run: "sentenceLoop eng this sentences (pushTrimmed chunks cur) sentence = Some (Inr (chunks', cur'))"
      and le: "length chunks' + visible cur'
                 \<le> length (pushTrimmed chunks cur) + visible sentence + sum_list (map visible sentences)"
      by blast
    from le pushTrimmed_count [of chunks cur] have "length chunks' + visible cur'
        \<le> length chunks + visible cur + sum_list (map visible (sentence # sentences))" by simp
    moreover have "sentenceLoop eng this (sentence # sentences) chunks cur = Some (Inr (chunks', cur'))"
      using flush run by simp
    ultimately show ?thesis by blast
  next
    case join
    define cur1 where "cur1 = cur @ (if length cur > 0 then js '' '' else []) @ sentence"
    have v: "visible cur1 = visible cur + visible sentence" by (simp add: cur1_def)
    from IH [of chunks cur1]
    obtain chunks' cur' where run: "sentenceLoop eng this sentences chunks cur1 = Some (Inr (chunks', cur'))"
      and le: "length chunks' + visible cur' \<le> length chunks + visible cur1 + sum_list (map visible sentences)"
      by blast
    from le v have "length chunks' + visible cur'
        \<le> length chunks + visible cur + sum_list (map visible (sentence # sentences))" by simp
    moreover have "sentenceLoop eng this (sentence # sentences) chunks cur = Some (Inr (chunks', cur'))"
      using join run by (simp add: cur1_def)
    ultimately show ?thesis by blast
  qed
qed

lemma part_visible_le:
  assumes "sum_list (map visible ps) = visible s" and "visible s \<le> L"
  shows "\<forall>p\<in>set ps. visible p \<le> L"
proof
  fix p assume "p \<in> set ps"
  then have "visible p \<le> sum_list (map visible ps)"
    by (simp add: member_le_sum_list)
  with assms show "visible p \<le> L" by simp
qed

lemma chunkBySentences_count:
  assumes "0 < safeChunkSize this" and "visible text \<le> wordChunksLimit eng"
  shows "\<exists>cs. chunkBySentences eng this text = Some (Inr cs) \<and> length cs \<le> visible text"
proof -
  note parts = splitIntoSentences_visible [of "text"]
  from sentenceLoop_count [OF assms(1) part_visible_le [OF parts assms(2)], of "[]" "[]"]
  obtain chunks cur where
    run: "sentenceLoop eng this (splitIntoSentences text) [] [] = Some (Inr (chunks, cur))"
    and le: "length chunks + visible cur \<le> sum_list (map visible (splitIntoSentences text))"
    by auto
  from le parts pushTrimmed_count [of chunks cur] have "length (pushTrimmed chunks cur) \<le> visible text"
    by simp
  with run show ?thesis by (simp add: chunkBySentences_def)
qed

lemma paragraphLoop_count:
  assumes "0 < safeChunkSize this"
  shows "\<forall>p\<in>set paragraphs. visible p \<le> wordChunksLimit eng \<and> visible p \<le> sentenceChunksLimit eng \<Longrightarrow>
         \<exists>chunks' cur'. paragraphLoop eng this paragraphs chunks cur = Some (Inr (chunks', cur'))
           \<and> length chunks' + visible cur'
               \<le> length chunks + visible cur + sum_list (map visible paragraphs)"
proof (induction paragraphs arbitrary: chunks cur)
  case Nil
  show ?case by simp
next
  case (Cons para paragraphs)
  from Cons.prems have fits: "visible para \<le> wordChunksLimit eng" "visible para \<le> sentenceChunksLimit eng"
    and rest: "\<forall>p\<in>set paragraphs. visible p \<le> wordChunksLimit eng \<and> visible p \<le> sentenceChunksLimit eng"
    by simp_all
  note IH = Cons.IH [OF rest]
  consider (long) "length para > safeChunkSize this"
    | (flush) "\<not> length para > safeChunkSize this"
        "length cur + length para + 1 > safeChunkSize this"
    | (join) "\<not> length para > safeChunkSize this"
        "\<not> length cur + length para + 1 > safeChunkSize this"
    by blast
  then show ?case
  proof cases
    case long
    define cur0 where "cur0 = (if length (trim cur) > 0 then [] else cur)"
    from chunkBySentences_count [OF assms fits(1)]
    obtain cs where cs: "chunkBySentences eng this para = Some (Inr cs)" and n: "length cs \<le> visible para"
      by blast
    from n fits(2) have push: "pushSpread (sentenceChunksLimit eng) (pushTrimmed chunks cur) cs
        = Inr (pushTrimmed chunks cur @ cs)" by (simp add: pushSpread_def)
    from IH [of "pushTrimmed chunks cur @ cs" cur0]
    obtain chunks' cur' where
      run: "paragraphLoop eng this paragraphs (pushTrimmed chunks cur @ cs) cur0 = Some (Inr (chunks', cur'))"
      and le: "length chunks' + visible cur'
                 \<le> length (pushTrimmed chunks cur @ cs) + visible cur0 + sum_list (map visible paragraphs)"
      by blast
    from pushTrimmed_reset_count [of chunks cur]
    have "length (pushTrimmed chunks cur) + visible cur0 \<le> length chunks + visible cur"
      by (simp add: cur0_def)
    with le n have "length chunks' + visible cur'
        \<le> length chunks + visible cur + sum_list (map visible (para # paragraphs))" by simp
    moreover have "paragraphLoop eng this (para # paragraphs) chunks cur = Some (Inr (chunks', cur'))"
      using long cs push run by (simp add: cur0_def)
    ultimately show ?thesis by blast
  next
    case flush
    from IH [of "pushTrimmed chunks cur" para]
    obtain chunks' cur' where
      run: "paragraphLoop eng this paragraphs (pushTrimmed chunks cur) para = Some (Inr (chunks', cur'))"
      and le: "length chunks' + visible cur'
                 \<le> length (pushTrimmed chunks cur) + visible para + sum_list (map visible paragraphs)"
      by blast
    from le pushTrimmed_count [of chunks cur] have "length chunks' + visible cur'
        \<le> length chunks + visible cur + sum_list (map visible (para # paragraphs))" by simp
    moreover have "paragraphLoop eng this (para # paragraphs) chunks cur = Some (Inr (chunks', cur'))"
      using flush run by simp
    ultimately show ?thesis by blast
  next
    case join
    define cur1 where "cur1 = cur @ (if length cur > 0 then [10, 10] else []) @ para"
    have v: "visible cur1 = visible cur + visible para" by (simp add: cur1_def)
    from IH [of chunks cur1]
    obtain chunks' cur' where run: "paragraphLoop eng this paragraphs chunks cur1 = Some (Inr (chunks', cur'))"
      and le: "length chunks' + visible cur' \<le> length chunks + visible cur1 + sum_list (map visible paragraphs)"
      by blast
    from le v have "length chunks' + visible cur'
        \<le> length chunks + visible cur + sum_list (map visible (para # paragraphs))" by simp
    moreover have "paragraphLoop eng this (para # paragraphs) chunks cur = Some (Inr (chunks', cur'))"
      using join run by (simp add: cur1_def)
    ultimately show ?thesis by blast
  qed
qed

text \<open>
  With a positive step and a text that has no more code units than the engine accepts
  arguments, \<open>chunk\<close> returns a sequence, of at most as many chunks as the text has code
  units.
\<close>

lemma chunk_returns:
  assumes "0 < safeChunkSize this"
    and "length text \<le> wordChunksLimit eng" and "length text \<le> sentenceChunksLimit eng"
  shows "\<exists>cs. chunk eng this text = Some (Inr cs) \<and> length cs \<le> length text"
proof -
  note v = visible_le_length [of "text"]
  consider (blank) "length (trim text) = 0"
    | (short) "length (trim text) \<noteq> 0" "length text \<le> safeChunkSize this"
    | (long) "length (trim text) \<noteq> 0" "\<not> length text \<le> safeChunkSize this"
    by blast
  then show ?thesis
  proof cases
    case blank
    then show ?thesis by (simp add: chunk_def)
  next
    case short
    from short(1) length_trim_le [of "text"] have "1 \<le> length text" by arith
    with short show ?thesis by (simp add: chunk_def)
  next
    case long
    note parts = splitIntoParagraphs_visible [of "text"]
    have "\<forall>p\<in>set (splitIntoParagraphs text).
            visible p \<le> wordChunksLimit eng \<and> visible p \<le> sentenceChunksLimit eng"
      using part_visible_le [OF parts, of "wordChunksLimit eng"]
        part_visible_le [OF parts, of "sentenceChunksLimit eng"] v assms(2,3) by simp
    from paragraphLoop_count [OF assms(1) this, of "[]" "[]"]
    obtain chunks cur where
      run: "paragraphLoop eng this (splitIntoParagraphs text) [] [] = Some (Inr (chunks, cur))"
      and le: "length chunks + visible cur \<le> sum_list (map visible (splitIntoParagraphs text))"
      by auto
    from le parts pushTrimmed_count [of chunks cur] v
    have "length (pushTrimmed chunks cur) \<le> length text" by simp
    moreover have "length (filter (\<lambda>c. length c > 0) (pushTrimmed chunks cur))
        \<le> length (pushTrimmed chunks cur)" by (rule length_filter_le)
    ultimately have "length (filter (\<lambda>c. length c > 0) (pushTrimmed chunks cur)) \<le> length text"
      by (rule le_trans [rotated])
    with run long show ?thesis by (simp add: chunk_def)
  qed
qed

subsection \<open>The hard ceiling\<close>

text \<open>
  Claim C1: for every positive \<open>maxChunkSize\<close> and every text, every element of the
  sequence that \<open>chunk\<close> returns has length at most \<open>maxChunkSize\<close>, that is,
  \<open>validateChunks\<close> holds of it. For every \<open>maxChunkSize\<close> of two or more the call ends,
  and it returns a sequence for every text that has no more code units than the engine accepts
  arguments in one call.
\<close>

theorem chunks_within_maxChunkSize:
  assumes "0 < n"
  shows "(\<forall>cs. chunk eng (newTextChunker n) text = Some (Inr cs) \<longrightarrow>
            validateChunks (newTextChunker n) cs)
       \<and> (2 \<le> n \<longrightarrow> (\<exists>r. chunk eng (newTextChunker n) text = Some r))
       \<and> (2 \<le> n \<and> length text \<le> wordChunksLimit eng \<and> length text \<le> sentenceChunksLimit eng \<longrightarrow>
            (\<exists>cs. chunk eng (newTextChunker n) text = Some (Inr cs)))"
proof (intro conjI allI impI)
  fix cs assume "chunk eng (newTextChunker n) text = Some (Inr cs)"
  from chunk_bound [OF this] safe_less_max [OF assms]
  show "validateChunks (newTextChunker n) cs"
    by (auto simp: validateChunks_def list_all_iff newTextChunker_def)
next
  assume "2 \<le> n"
  then show "\<exists>r. chunk eng (newTextChunker n) text = Some r"
    by (intro chunk_total safe_pos)
next
  assume a: "2 \<le> n \<and> length text \<le> wordChunksLimit eng \<and> length text \<le> sentenceChunksLimit eng"
  then have "0 < safeChunkSize (newTextChunker n)" by (intro safe_pos) simp
  from chunk_returns [OF this, of "text" eng] a
  show "\<exists>cs. chunk eng (newTextChunker n) text = Some (Inr cs)" by blast
qed

theorem chunks_within_maxChunkSize_witness:
  "0 < (20 :: nat) \<and> 2 \<le> (20 :: nat)
   \<and> length threeParagraphs \<le> wordChunksLimit anEngine
   \<and> length threeParagraphs \<le> sentenceChunksLimit anEngine
   \<and> chunk anEngine (newTextChunker 20) threeParagraphs =
       Some (Inr [js ''aaaaaaaaa'' @ [10, 10] @ js ''bbbbbbbbb'', js ''ccccc''])
   \<and> validateChunks (newTextChunker 20) [js ''aaaaaaaaa'' @ [10, 10] @ js ''bbbbbbbbb'', js ''ccccc'']"
proof -
  have run: "chunk anEngine (newTextChunker 20) threeParagraphs =
      Some (Inr [js ''aaaaaaaaa'' @ [10, 10] @ js ''bbbbbbbbb'', js ''ccccc''])"
    by (simp add: chunker_defs threeParagraphs_def)
  have lim: "length threeParagraphs \<le> wordChunksLimit anEngine"
    "length threeParagraphs \<le> sentenceChunksLimit anEngine"
    by (simp_all add: threeParagraphs_def anEngine_def js_def)
  from chunks_within_maxChunkSize [of 20 anEngine threeParagraphs] run lim show ?thesis by simp
qed

subsection \<open>Termination\<close>

text \<open>
  Claim C2: for every positive \<open>maxChunkSize\<close> and every text, \<open>chunk\<close> terminates without
  throwing and returns a valid chunk sequence; in particular the character loop, which
  advances by \<open>safeChunkSize\<close>, terminates for every over-long word.

  The code does not do this for \<open>maxChunkSize = 1\<close>: then \<open>safeChunkSize\<close> is
  \<open>Math.floor(0.95) = 0\<close>, every non-empty word is over-long, and the character loop
  \<^verbatim>\<open>for (let i = 0; i < word.length; i += 0)\<close> pushes the empty slice forever. The call
  on the one-letter text does not return.
\<close>

theorem chunk_size_one_never_returns:
  "safeChunkSize (newTextChunker 1) = 0 \<and> chunk eng (newTextChunker 1) (js ''a'') = None"
  by (simp add: chunker_defs charLoop_zero_None)

subsection \<open>Short text\<close>

text \<open>
  Claim C3, as stated: for every text whose trimmed length is at most \<open>safeChunkSize\<close>,
  \<open>chunk\<close> returns exactly one chunk, the trimmed text. It fails on two kinds of input.
  A text of white space only has trimmed length 0 and gives no chunk. And the test the code
  makes is on the length of the text as given: a text longer than \<open>safeChunkSize\<close> whose
  trimmed length is within it goes through the paragraph loop, which joins the trimmed
  paragraphs by two line feeds whatever separated them.
\<close>

theorem short_text_counterexample:
  "length (trim (js ''   '')) \<le> safeChunkSize (newTextChunker 20)
   \<and> chunk anEngine (newTextChunker 20) (js ''   '') = Some (Inr [])
   \<and> trim paddedText = js ''a'' @ [10, 32, 10] @ js ''b''
   \<and> length (trim paddedText) \<le> safeChunkSize (newTextChunker 20)
   \<and> chunk anEngine (newTextChunker 20) paddedText = Some (Inr [js ''a'' @ [10, 10] @ js ''b''])"
  by (simp add: chunker_defs paddedText_def)

text \<open>
  Claim C3, amended: for every text that is not only white space and whose trimmed length
  is at most \<open>safeChunkSize\<close>, \<open>chunk\<close> returns exactly one chunk: the trimmed text if the
  length of the text as given is at most \<open>safeChunkSize\<close>, and otherwise the trimmed
  paragraphs of the text joined by two line feeds.
\<close>

theorem short_text_single_chunk:
  assumes "trim text \<noteq> []" and "length (trim text) \<le> safeChunkSize (newTextChunker n)"
  shows "chunk eng (newTextChunker n) text =
     Some (Inr [if length text \<le> safeChunkSize (newTextChunker n) then trim text
                else joinParagraphs (splitIntoParagraphs text)])"
  using assms by (rule fits_single_chunk)

theorem short_text_single_chunk_witness:
  "trim paddedText \<noteq> [] \<and> length (trim paddedText) \<le> safeChunkSize (newTextChunker 20)
   \<and> \<not> length paddedText \<le> safeChunkSize (newTextChunker 20)
   \<and> joinParagraphs (splitIntoParagraphs paddedText) = js ''a'' @ [10, 10] @ js ''b''
   \<and> chunk anEngine (newTextChunker 20) paddedText = Some (Inr [js ''a'' @ [10, 10] @ js ''b''])
   \<and> trim (js '' Hello world. '') \<noteq> []
   \<and> length (js '' Hello world. '') \<le> safeChunkSize (newTextChunker 20)
   \<and> chunk anEngine (newTextChunker 20) (js '' Hello world. '') = Some (Inr [js ''Hello world.''])"
proof -
  have t: "trim paddedText = js ''a'' @ [10, 32, 10] @ js ''b''"
    by (simp add: chunker_defs paddedText_def)
  have l: "length (trim paddedText) \<le> safeChunkSize (newTextChunker 20)"
    "\<not> length paddedText \<le> safeChunkSize (newTextChunker 20)"
    by (simp_all add: chunker_defs paddedText_def)
  have j: "joinParagraphs (splitIntoParagraphs paddedText) = js ''a'' @ [10, 10] @ js ''b''"
    by (simp add: chunker_defs paddedText_def)
  have ne: "trim paddedText \<noteq> []" by (simp add: t js_def)
  have t': "trim (js '' Hello world. '') = js ''Hello world.''"
    by (simp add: js_def trim_def isWhiteSpace_def)
  have l': "length (js '' Hello world. '') \<le> safeChunkSize (newTextChunker 20)"
    "length (js ''Hello world.'') \<le> safeChunkSize (newTextChunker 20)"
    by (simp_all add: js_def newTextChunker_def)
  have ne': "js ''Hello world.'' \<noteq> []" by (simp add: js_def)
  from short_text_single_chunk [of paddedText 20 anEngine] ne l j
  have 1: "chunk anEngine (newTextChunker 20) paddedText = Some (Inr [js ''a'' @ [10, 10] @ js ''b''])"
    by simp
  from short_text_single_chunk [of "js '' Hello world. ''" 20 anEngine] t' l' ne'
  have 2: "chunk anEngine (newTextChunker 20) (js '' Hello world. '') = Some (Inr [js ''Hello world.''])"
    by simp
  from 1 2 ne l j t' l' ne' show ?thesis by simp
qed

subsection \<open>Over-long words\<close>

text \<open>
  Claim C8: every single word longer than \<open>maxChunkSize\<close> is split at the character level
  into consecutive slices of the word, each of length exactly \<open>safeChunkSize\<close> except
  possibly the last, whose concatenation is the word.

  The code does not do this for \<open>maxChunkSize = 1\<close>, by the defect shown under C2: the
  character loop advances by \<open>safeChunkSize = 0\<close>, and the call on a word of two letters
  does not return. (For a positive step the slices are as the claim says, and \<open>chunk\<close>
  returns them unless they are more than a spread call accepts: lemma
  \<open>long_word_character_split\<close>.)
\<close>

theorem long_word_size_one_never_returns:
  "maxChunkSize (newTextChunker 1) < length (js ''ab'')
   \<and> chunk eng (newTextChunker 1) (js ''ab'') = None"
  by (simp add: chunker_defs charLoop_zero_None)

subsection \<open>Sentence splitting\<close>

text \<open>
  Claim C9, as stated: sentence splitting divides the text at every position where \<open>.\<close>,
  \<open>!\<close> or \<open>?\<close> is immediately followed by white space and then a capital letter. The
  expression asks for \<^verbatim>\<open>[A-Z]\<close>: before a capital letter outside A to Z, such as U+00C9,
  the text is not divided.
\<close>

theorem capital_letter_counterexample:
  "accentedCapital = js ''Fin. '' @ [201] @ js ''cole.''
   \<and> splitIntoSentences accentedCapital = [accentedCapital]"
  by (simp add: chunker_defs accentedCapital_def)

text \<open>
  Claim C9, amended: sentence splitting divides the text at every position where \<open>.\<close>,
  \<open>!\<close> or \<open>?\<close> is immediately followed by white space and then a capital letter from A
  to Z, with no special case for abbreviations or decimal numbers: a text with
  \<^verbatim>\<open>Dr. Smith\<close> is split behind the period of the abbreviation, and a decimal number like
  \<^verbatim>\<open>3.14\<close> is never split.

  At such a position the sentences of the whole text are the sentences of what stands
  before the white space followed by the sentences of what stands behind it. A block
  without white space, whatever surrounds it, lies whole in one of the sentences.
\<close>

theorem sentences_split_at_every_boundary:
  "(pre \<noteq> [] \<and> isTerminator (last pre) \<and> ws \<noteq> [] \<and> (\<forall>c\<in>set ws. isWhiteSpace c)
      \<and> post \<noteq> [] \<and> isCapital (hd post)
    \<longrightarrow> splitIntoSentences (pre @ ws @ post) = splitIntoSentences pre @ splitIntoSentences post)
   \<and> splitIntoSentences (js ''Dr. Smith went home.'') = [js ''Dr.'', js ''Smith went home.'']
   \<and> (d \<noteq> [] \<and> (\<forall>c\<in>set d. \<not> isWhiteSpace c)
      \<longrightarrow> (\<exists>s\<in>set (splitIntoSentences (u @ d @ v)). sublist d s))"
proof (intro conjI impI)
  assume "pre \<noteq> [] \<and> isTerminator (last pre) \<and> ws \<noteq> [] \<and> (\<forall>c\<in>set ws. isWhiteSpace c)
      \<and> post \<noteq> [] \<and> isCapital (hd post)"
  then show "splitIntoSentences (pre @ ws @ post) = splitIntoSentences pre @ splitIntoSentences post"
    by (intro splitIntoSentences_boundary) simp_all
next
  show "splitIntoSentences (js ''Dr. Smith went home.'') = [js ''Dr.'', js ''Smith went home.'']"
    by (simp add: chunker_defs)
next
  assume "d \<noteq> [] \<and> (\<forall>c\<in>set d. \<not> isWhiteSpace c)"
  then show "\<exists>s\<in>set (splitIntoSentences (u @ d @ v)). sublist d s"
    by (intro splitIntoSentences_keeps_block) simp_all
qed

theorem sentences_split_at_every_boundary_witness:
  "splitIntoSentences (js ''Dr.'' @ js '' '' @ js ''Smith went home. He slept.'') =
     splitIntoSentences (js ''Dr.'') @ splitIntoSentences (js ''Smith went home. He slept.'')
   \<and> splitIntoSentences (js ''Dr. Smith went home. He slept.'') =
       [js ''Dr.'', js ''Smith went home.'', js ''He slept.'']
   \<and> (\<exists>s\<in>set (splitIntoSentences (js ''Pi is '' @ js ''3.14'' @ js '' exactly. Yes.'')).
         sublist (js ''3.14'') s)
   \<and> splitIntoSentences (js ''Pi is 3.14 exactly. Yes.'') = [js ''Pi is 3.14 exactly.'', js ''Yes.'']"
proof -
  have h: "js ''Dr.'' \<noteq> [] \<and> isTerminator (last (js ''Dr.'')) \<and> js '' '' \<noteq> []
      \<and> (\<forall>c\<in>set (js '' ''). isWhiteSpace c) \<and> js ''Smith went home. He slept.'' \<noteq> []
      \<and> isCapital (hd (js ''Smith went home. He slept.''))"
    by (simp add: js_def isTerminator_def isWhiteSpace_def isCapital_def)
  have b: "js ''3.14'' \<noteq> [] \<and> (\<forall>c\<in>set (js ''3.14''). \<not> isWhiteSpace c)"
    by (simp add: js_def isWhiteSpace_def)
  have e1: "splitIntoSentences (js ''Dr. Smith went home. He slept.'') =
       [js ''Dr.'', js ''Smith went home.'', js ''He slept.'']"
    by (simp add: chunker_defs)
  have e2: "splitIntoSentences (js ''Pi is 3.14 exactly. Yes.'') = [js ''Pi is 3.14 exactly.'', js ''Yes.'']"
    by (simp add: chunker_defs)
  from sentences_split_at_every_boundary
         [of "js ''Dr.''" "js '' ''" "js ''Smith went home. He slept.''" "js ''3.14''"
             "js ''Pi is ''" "js '' exactly. Yes.''"] h b e1 e2
  show ?thesis by blast
qed

subsection \<open>One character above the safe size\<close>

text \<open>
  Claim C10: for every \<open>maxChunkSize\<close> and every text, every chunk that \<open>chunk\<close> returns has
  length at most \<open>safeChunkSize + 1\<close>, where \<open>safeChunkSize\<close> is \<open>maxChunkSize * 19 div 20\<close>.
  The flush test of the paragraph loop counts one joining character and the join inserts
  two line feeds, so a chunk can be one character above \<open>safeChunkSize\<close>, as the first
  chunk of the three paragraphs is, and no chunk is more above it. (The call ends for every
  \<open>maxChunkSize\<close> of two or more, and it returns a sequence for every text that has no more
  code units than the engine accepts arguments in one call.)
\<close>

theorem chunks_within_safe_plus_one:
  "(\<forall>cs. chunk eng (newTextChunker n) text = Some (Inr cs) \<longrightarrow>
      (\<forall>c\<in>set cs. length c \<le> safeChunkSize (newTextChunker n) + 1))
   \<and> safeChunkSize (newTextChunker n) = n * 19 div 20
   \<and> (2 \<le> n \<longrightarrow> (\<exists>r. chunk eng (newTextChunker n) text = Some r))
   \<and> (2 \<le> n \<and> length text \<le> wordChunksLimit eng \<and> length text \<le> sentenceChunksLimit eng \<longrightarrow>
        (\<exists>cs. chunk eng (newTextChunker n) text = Some (Inr cs)))
   \<and> chunk eng (newTextChunker 20) threeParagraphs =
       Some (Inr [js ''aaaaaaaaa'' @ [10, 10] @ js ''bbbbbbbbb'', js ''ccccc''])
   \<and> length (js ''aaaaaaaaa'' @ [10, 10] @ js ''bbbbbbbbb'') = safeChunkSize (newTextChunker 20) + 1"
proof (intro conjI allI impI)
  fix cs assume "chunk eng (newTextChunker n) text = Some (Inr cs)"
  then show "\<forall>c\<in>set cs. length c \<le> safeChunkSize (newTextChunker n) + 1"
    by (rule chunk_bound)
next
  show "safeChunkSize (newTextChunker n) = n * 19 div 20" by (simp add: newTextChunker_def)
next
  assume "2 \<le> n"
  then show "\<exists>r. chunk eng (newTextChunker n) text = Some r"
    by (intro chunk_total safe_pos)
next
  assume a: "2 \<le> n \<and> length text \<le> wordChunksLimit eng \<and> length text \<le> sentenceChunksLimit eng"
  then have "0 < safeChunkSize (newTextChunker n)" by (intro safe_pos) simp
  from chunk_returns [OF this, of "text" eng] a
  show "\<exists>cs. chunk eng (newTextChunker n) text = Some (Inr cs)" by blast
next
  show "chunk eng (newTextChunker 20) threeParagraphs =
       Some (Inr [js ''aaaaaaaaa'' @ [10, 10] @ js ''bbbbbbbbb'', js ''ccccc''])"
    by (simp add: chunker_defs threeParagraphs_def)
next
  show "length (js ''aaaaaaaaa'' @ [10, 10] @ js ''bbbbbbbbb'') = safeChunkSize (newTextChunker 20) + 1"
    by (simp add: js_def newTextChunker_def)
qed

theorem chunks_within_safe_plus_one_witness:
  "chunk anEngine (newTextChunker 20) threeParagraphs =
       Some (Inr [js ''aaaaaaaaa'' @ [10, 10] @ js ''bbbbbbbbb'', js ''ccccc''])
   \<and> list_all (\<lambda>c. length c \<le> safeChunkSize (newTextChunker 20) + 1)
         [js ''aaaaaaaaa'' @ [10, 10] @ js ''bbbbbbbbb'', js ''ccccc'']
   \<and> safeChunkSize (newTextChunker 20) = 19
   \<and> length threeParagraphs \<le> wordChunksLimit anEngine
   \<and> length threeParagraphs \<le> sentenceChunksLimit anEngine"
proof -
  have lim: "length threeParagraphs \<le> wordChunksLimit anEngine"
    "length threeParagraphs \<le> sentenceChunksLimit anEngine"
    by (simp_all add: threeParagraphs_def anEngine_def js_def)
  note t = chunks_within_safe_plus_one [of anEngine 20 threeParagraphs]
  from t have run: "chunk anEngine (newTextChunker 20) threeParagraphs =
       Some (Inr [js ''aaaaaaaaa'' @ [10, 10] @ js ''bbbbbbbbb'', js ''ccccc''])"
    by blast
  from t have "\<forall>cs. chunk anEngine (newTextChunker 20) threeParagraphs = Some (Inr cs) \<longrightarrow>
      (\<forall>c\<in>set cs. length c \<le> safeChunkSize (newTextChunker 20) + 1)"
    by blast
  with run have bound: "\<forall>c\<in>set [js ''aaaaaaaaa'' @ [10, 10] @ js ''bbbbbbbbb'', js ''ccccc''].
         length c \<le> safeChunkSize (newTextChunker 20) + 1"
    by blast
  from t have "safeChunkSize (newTextChunker 20) = 20 * 19 div 20" by blast
  then have "safeChunkSize (newTextChunker 20) = 19" by simp
  with run bound lim show ?thesis by (simp add: list_all_iff)
qed


section \<open>Properties of the audio processor\<close>

subsection \<open>The loops\<close>

lemma cleanupTempFiles_frame:
  "p \<notin> set fs \<Longrightarrow> files (cleanupTempFiles env fs w) p = files w p"
  by (induction fs arbitrary: w) (auto simp: unlink_def)

lemma cleanupTempFiles_execLog:
  "execLog (cleanupTempFiles env fs w) = execLog w"
  by (induction fs arbitrary: w) (auto simp: unlink_def)

lemma readBuffers_ok:
  "map (files w) ps = map (\<lambda>b. Some (Audio b)) bs \<Longrightarrow> readBuffers ps acc w = Inr (acc @ bs)"
proof (induction ps arbitrary: bs acc)
  case Nil
  then show ?case by simp
next
  case (Cons p ps)
  then obtain b bs' where bs: "bs = b # bs'" by (cases bs) auto
  with Cons.prems have "files w p = Some (Audio b)" "map (files w) ps = map (\<lambda>b. Some (Audio b)) bs'"
    by auto
  with Cons.IH [of bs' "acc @ [b]"] bs show ?case
    by (simp add: readFile_def)
qed

text \<open>
  When every write is accepted, saving the buffers from index \<open>i\<close> on returns one new
  temporary file per buffer, named by its index and the clock and holding that buffer; no
  other file is touched and no command is run.
\<close>

lemma saveBuffers_ok:
  assumes "\<forall>p. writable env p"
  shows "\<exists>w'. saveBuffers env i bs tfs w =
             (Inr (tfs @ map (\<lambda>k. TempChunk (i + k) (clock env (ticks w + k))) [0..<length bs]), w')
           \<and> map (files w') (map (\<lambda>k. TempChunk (i + k) (clock env (ticks w + k))) [0..<length bs])
               = map (\<lambda>b. Some (Audio b)) bs
           \<and> (\<forall>p. p \<notin> set (map (\<lambda>k. TempChunk (i + k) (clock env (ticks w + k))) [0..<length bs])
                 \<longrightarrow> files w' p = files w p)
           \<and> execLog w' = execLog w \<and> console w' = console w"
proof (induction bs arbitrary: i tfs w)
  case Nil
  show ?case by simp
next
  case (Cons b bs)
  define t where "t = clock env (ticks w)"
  define w2 where "w2 = w\<lparr>ticks := ticks w + 1, files := (files w)(TempChunk i t \<mapsto> Audio b)\<rparr>"
  define names where
    "names = map (\<lambda>k. TempChunk (i + 1 + k) (clock env (ticks w2 + k))) [0..<length bs]"
  from Cons.IH [of "i + 1" "tfs @ [TempChunk i t]" w2]
  obtain w' where IH:
    "saveBuffers env (i + 1) bs (tfs @ [TempChunk i t]) w2 = (Inr ((tfs @ [TempChunk i t]) @ names), w')"
    "map (files w') names = map (\<lambda>b. Some (Audio b)) bs"
    "\<forall>p. p \<notin> set names \<longrightarrow> files w' p = files w2 p"
    "execLog w' = execLog w2" "console w' = console w2"
    unfolding names_def by blast
  have all: "map (\<lambda>k. TempChunk (i + k) (clock env (ticks w + k))) [0..<length (b # bs)]
      = TempChunk i t # names"
    by (simp add: names_def t_def w2_def map_upt_Suc del: upt_Suc)
  have fresh: "TempChunk i t \<notin> set names" by (auto simp: names_def)
  have step: "saveBuffers env i (b # bs) tfs w = (Inr (tfs @ (TempChunk i t # names)), w')"
    using assms IH(1) by (simp add: dateNow_def writeFile_def t_def w2_def)
  have here: "files w' (TempChunk i t) = Some (Audio b)"
    using IH(3) fresh by (simp add: w2_def)
  have frame: "\<forall>p. p \<notin> set (TempChunk i t # names) \<longrightarrow> files w' p = files w p"
    using IH(3) by (simp add: w2_def)
  show ?case unfolding all
    using step here IH(2) frame IH(4,5) by (intro exI [of _ w']) (simp add: w2_def)
qed

text \<open>
  With every write accepted, \<open>concatenateWithFFmpeg\<close> runs the concat demuxer once and the
  filter pipeline only if the demuxer failed, and fails only if both did.
\<close>

lemma concatenateWithFFmpeg_run:
  assumes "\<forall>p. writable env p"
  shows "\<exists>w'. concatenateWithFFmpeg env tfs out w =
            (if demuxerWorks env \<or> filterWorks env then Inr () else Inl FFmpegConcatFailed, w')
          \<and> execLog w' = execLog w @ [ConcatDemuxer (ConcatList (clock env (ticks w))) out]
                @ (if demuxerWorks env then [] else [FilterComplex tfs out])"
  using assms
  by (auto simp: concatenateWithFFmpeg_def dateNow_def writeFile_def execAsync_def unlink_def
        Let_def)

subsection \<open>Transient files\<close>

text \<open>
  Claim C4: on every exit path of a concatenation of two or more buffers (success, tool
  failure or exception) all transient files the operation created are removed.

  The code does not do this. With \<^verbatim>\<open>ffmpeg\<close> installed and both invocations failing,
  \<open>concatenateBuffers\<close> on two buffers raises the wrapped \<open>FFmpegConcatFailed\<close>; the list
  file is gone (the \<^verbatim>\<open>finally\<close> of \<open>concatenateWithFFmpeg\<close>), and the two chunk files are
  still there: \<open>cleanupTempFiles\<close> is called on the successful path only.
\<close>

theorem concatenateBuffers_leaves_chunk_files:
  "concatenateBuffers failingTool [[1, 2], [3]] (UserFile ''out.mp3'') emptyWorld =
     (Inl (FailedToConcatenate FFmpegConcatFailed),
      \<lparr> files = [TempChunk 0 1000 \<mapsto> Audio [1, 2], TempChunk 1 1001 \<mapsto> Audio [3]],
        execLog = [FFmpegVersion, ConcatDemuxer (ConcatList 1002) (UserFile ''out.mp3''),
                   FilterComplex [TempChunk 0 1000, TempChunk 1 1001] (UserFile ''out.mp3'')],
        console = [], ticks = 3 \<rparr>)"
  by (simp add: concatenateBuffers_def failingTool_def emptyWorld_def dateNow_def writeFile_def
        concatenateFiles_def checkFFmpeg_def execAsync_def concatenateWithFFmpeg_def unlink_def
        Let_def)

subsection \<open>No input\<close>

text \<open>
  Claim C5: \<open>concatenateBuffers\<close> raises the no-input error (\<^verbatim>\<open>No audio buffers provided\<close>)
  exactly when the list of buffers is empty; in that case nothing is retried and no output
  is written: the world is returned as it was, with no file written and no command run.
\<close>

theorem concatenateBuffers_no_input:
  "(fst (concatenateBuffers env bufs out w) = Inl NoAudioBuffers \<longleftrightarrow> bufs = [])
   \<and> concatenateBuffers env [] out w = (Inl NoAudioBuffers, w)"
  by (auto simp: concatenateBuffers_def writeFile_def split: list.splits prod.splits sum.splits)

theorem concatenateBuffers_no_input_witness:
  "fst (concatenateBuffers failingTool [] (UserFile ''out.mp3'') emptyWorld) = Inl NoAudioBuffers
   \<and> fst (concatenateBuffers failingTool [[1, 2]] (UserFile ''out.mp3'') emptyWorld) \<noteq> Inl NoAudioBuffers
   \<and> snd (concatenateBuffers failingTool [] (UserFile ''out.mp3'') emptyWorld) = emptyWorld"
  using concatenateBuffers_no_input [of failingTool "[]" "UserFile ''out.mp3''" emptyWorld]
    concatenateBuffers_no_input [of failingTool "[[1, 2]]" "UserFile ''out.mp3''" emptyWorld]
  by simp

subsection \<open>The fallback\<close>

text \<open>
  Claim C6, as stated: for every non-empty list of buffers and \<^verbatim>\<open>ffmpeg\<close> unavailable, the
  concatenation raises no error and produces a non-empty output that is the buffers
  appended in order. It fails on two kinds of input. Two empty buffers go through the
  fallback and give an empty output file. And the fallback writes the output and then
  removes the temporary chunk files: with the name of one of them as output path the call
  returns that path and the file is gone.
\<close>

theorem fallback_counterexample:
  "concatenateBuffers missingTool [[], []] (UserFile ''out.mp3'') emptyWorld =
     (Inr (UserFile ''out.mp3''),
      \<lparr> files = [UserFile ''out.mp3'' \<mapsto> Audio []],
        execLog = [FFmpegVersion], console = [FFmpegNotFound], ticks = 2 \<rparr>)
   \<and> concatenateBuffers missingTool [[1], [2]] (TempChunk 0 1000) emptyWorld =
     (Inr (TempChunk 0 1000),
      \<lparr> files = Map.empty,
        execLog = [FFmpegVersion], console = [FFmpegNotFound], ticks = 2 \<rparr>)"
  by (simp add: concatenateBuffers_def missingTool_def emptyWorld_def dateNow_def writeFile_def
        concatenateFiles_def checkFFmpeg_def execAsync_def simpleConcatenate_def readFile_def
        unlink_def Let_def fun_eq_iff)

text \<open>
  Claim C6, amended: for every non-empty list of buffers, when \<^verbatim>\<open>ffmpeg\<close> is unavailable,
  the file system accepts the writes and, for two or more buffers, the output path is none
  of the temporary chunk files the call creates (\<^verbatim>\<open>chunk_<k>_<Date.now()>.mp3\<close> for the
  \<open>k\<close>-th buffer), the concatenation raises no error and leaves an output file whose
  bytes are exactly the bytes of the buffers appended in order; the output is non-empty
  exactly when some buffer is.
\<close>

theorem fallback_appends_buffers:
  assumes "\<not> ffmpegInstalled env" and "\<forall>p. writable env p" and "bufs \<noteq> []"
    and "2 \<le> length bufs \<longrightarrow> (\<forall>k<length bufs. out \<noteq> TempChunk k (clock env (ticks w + k)))"
  shows "\<exists>w'. concatenateBuffers env bufs out w = (Inr out, w')
            \<and> files w' out = Some (Audio (concat bufs))
            \<and> (concat bufs \<noteq> [] \<longleftrightarrow> (\<exists>b\<in>set bufs. b \<noteq> []))"
proof (cases bufs)
  case Nil
  with assms show ?thesis by simp
next
  case (Cons b bs)
  show ?thesis
  proof (cases bs)
    case Nil
    with Cons assms show ?thesis
      by (simp add: concatenateBuffers_def writeFile_def)
  next
    case (Cons b' bs')
    define new where "new = map (\<lambda>k. TempChunk (0 + k) (clock env (ticks w + k))) [0..<length bufs]"
    from saveBuffers_ok [OF assms(2), of 0 bufs "[]" w]
    obtain w1 where sv:
      "saveBuffers env 0 bufs [] w = (Inr new, w1)"
      "map (files w1) new = map (\<lambda>b. Some (Audio b)) bufs"
      unfolding new_def by auto
    define w2 where
      "w2 = w1\<lparr>execLog := execLog w1 @ [FFmpegVersion], console := console w1 @ [FFmpegNotFound]\<rparr>"
    define w3 where "w3 = w2\<lparr>files := (files w2)(out \<mapsto> Audio (concat bufs))\<rparr>"
    have len: "length new = length bufs" by (simp add: new_def)
    have rd: "readBuffers new [] w2 = Inr bufs"
      using readBuffers_ok [of w2 new bufs "[]"] sv(2) by (simp add: w2_def)
    have cf: "concatenateFiles env new out w1 = (Inr (), w3)"
      using assms(1,2) rd len \<open>bufs = b # bs\<close>
      by (simp add: concatenateFiles_def checkFFmpeg_def execAsync_def simpleConcatenate_def
            writeFile_def w2_def w3_def)
    have "2 \<le> length bufs" using \<open>bufs = b # bs\<close> \<open>bs = b' # bs'\<close> by simp
    with assms(4) have notin: "out \<notin> set new" by (auto simp: new_def)
    have "concatenateBuffers env bufs out w = (Inr out, cleanupTempFiles env new w3)"
      using sv(1) cf \<open>bufs = b # bs\<close> \<open>bs = b' # bs'\<close> by (simp add: concatenateBuffers_def)
    moreover have "files (cleanupTempFiles env new w3) out = Some (Audio (concat bufs))"
      using cleanupTempFiles_frame [OF notin] by (simp add: w3_def)
    ultimately show ?thesis by auto
  qed
qed

theorem fallback_appends_buffers_witness:
  "\<not> ffmpegInstalled missingTool \<and> (\<forall>p. writable missingTool p) \<and> [[1, 2], [3 :: 8 word]] \<noteq> []
   \<and> UserFile ''out.mp3'' \<noteq> TempChunk 0 (clock missingTool (ticks emptyWorld + 0))
   \<and> UserFile ''out.mp3'' \<noteq> TempChunk 1 (clock missingTool (ticks emptyWorld + 1))
   \<and> (\<exists>w'. concatenateBuffers missingTool [[1, 2], [3]] (UserFile ''out.mp3'') emptyWorld =
              (Inr (UserFile ''out.mp3''), w')
          \<and> files w' (UserFile ''out.mp3'') = Some (Audio [1, 2, 3]))"
  using fallback_appends_buffers [of missingTool "[[1, 2], [3]]" "UserFile ''out.mp3''" emptyWorld]
  by (simp add: missingTool_def)

subsection \<open>The retry\<close>

text \<open>
  Claim C7: when \<^verbatim>\<open>ffmpeg\<close> is available and the primary invocation (the concat demuxer)
  fails, the concatenation retries exactly once, with the filter pipeline of the same tool;
  it succeeds if the retry succeeds, and raises the concatenation error if and only if both
  the primary invocation and the retry fail.

  For two or more buffers and accepted writes, the commands run are the version check, the
  demuxer and, exactly if the demuxer failed, one filter invocation; the result is the
  output path unless both invocations failed, and the wrapped \<open>FFmpegConcatFailed\<close> then.
\<close>

theorem ffmpeg_retries_once:
  assumes "ffmpegInstalled env" and "\<forall>p. writable env p" and "2 \<le> length bufs"
  shows "\<exists>tempFiles listFile w'.
           concatenateBuffers env bufs out w =
             (if demuxerWorks env \<or> filterWorks env then Inr out
              else Inl (FailedToConcatenate FFmpegConcatFailed), w')
         \<and> length tempFiles = length bufs
         \<and> execLog w' = execLog w @ [FFmpegVersion, ConcatDemuxer listFile out]
              @ (if demuxerWorks env then [] else [FilterComplex tempFiles out])"
proof -
  from assms(3) obtain b b' bs where bufs: "bufs = b # b' # bs"
    by (cases bufs; cases "tl bufs") auto
  define new where "new = map (\<lambda>k. TempChunk (0 + k) (clock env (ticks w + k))) [0..<length bufs]"
  from saveBuffers_ok [OF assms(2), of 0 bufs "[]" w]
  obtain w1 where sv:
    "saveBuffers env 0 bufs [] w = (Inr new, w1)"
    "execLog w1 = execLog w"
    unfolding new_def by auto
  have len: "length new = length bufs" by (simp add: new_def)
  define w2 where "w2 = w1\<lparr>execLog := execLog w1 @ [FFmpegVersion]\<rparr>"
  from concatenateWithFFmpeg_run [OF assms(2), of new out w2]
  obtain w3 where run:
    "concatenateWithFFmpeg env new out w2 =
       (if demuxerWorks env \<or> filterWorks env then Inr () else Inl FFmpegConcatFailed, w3)"
    "execLog w3 = execLog w2 @ [ConcatDemuxer (ConcatList (clock env (ticks w2))) out]
       @ (if demuxerWorks env then [] else [FilterComplex new out])"
    by blast
  have cf: "concatenateFiles env new out w1 =
       (if demuxerWorks env \<or> filterWorks env then Inr () else Inl FFmpegConcatFailed, w3)"
    using assms(1) len bufs run(1)
    by (simp add: concatenateFiles_def checkFFmpeg_def execAsync_def w2_def)
  define w' where
    "w' = (if demuxerWorks env \<or> filterWorks env then cleanupTempFiles env new w3 else w3)"
  have res: "concatenateBuffers env bufs out w =
      (if demuxerWorks env \<or> filterWorks env then Inr out
       else Inl (FailedToConcatenate FFmpegConcatFailed), w')"
    using sv(1) cf bufs by (simp add: concatenateBuffers_def w'_def)
  have log: "execLog w' =
      execLog w @ [FFmpegVersion, ConcatDemuxer (ConcatList (clock env (ticks w2))) out]
        @ (if demuxerWorks env then [] else [FilterComplex new out])"
    using run(2) sv(2) by (simp add: w'_def w2_def cleanupTempFiles_execLog)
  from res len log show ?thesis by blast
qed

theorem ffmpeg_retries_once_witness:
  "ffmpegInstalled failingTool \<and> (\<forall>p. writable failingTool p) \<and> 2 \<le> length [[1, 2], [3 :: 8 word]]
   \<and> (\<exists>tempFiles listFile w'.
         concatenateBuffers failingTool [[1, 2], [3]] (UserFile ''out.mp3'') emptyWorld =
           (Inl (FailedToConcatenate FFmpegConcatFailed), w')
       \<and> length tempFiles = 2
       \<and> execLog w' = [FFmpegVersion, ConcatDemuxer listFile (UserFile ''out.mp3''),
                        FilterComplex tempFiles (UserFile ''out.mp3'')])"
  using ffmpeg_retries_once [of failingTool "[[1, 2], [3]]" "UserFile ''out.mp3''" emptyWorld]
  by (simp add: failingTool_def emptyWorld_def numeral_2_eq_2)

end
